theory Spec2Isabelle
  imports Main "HOL-Library.Word" "HOL-Library.AList" "HOL-Library.List_Lexorder"
begin

unbundle bit_operations_syntax

section \<open>Bytes, panics and errors\<close>

text \<open>
  The elements of a Go \<^verbatim>\<open>[]byte\<close> are a list of 8-bit words, and the length of the
  slice is the length of the list. A Go run-time panic is the left summand of a result of
  type \<open>panic + 'a\<close>; an \<^verbatim>\<open>error\<close> return value is an \<open>error option\<close> (\<open>None\<close> is
  \<^verbatim>\<open>nil\<close>) or the left summand of \<open>error + 'a\<close>.
\<close>

type_synonym byte = "8 word"
type_synonym bytes = "byte list"

datatype panic = SliceBoundsOutOfRange | IndexOutOfRange | UnknownHashLength nat

datatype error = ErrKeyNotFound | StoreIOError nat | DecodeError nat

text \<open>Sequencing of steps that may panic: the first panic ends the computation.\<close>

definition andThen :: "panic + 'a \<Rightarrow> ('a \<Rightarrow> panic + 'b) \<Rightarrow> panic + 'b" where
  "andThen r f = (case r of Inl p \<Rightarrow> Inl p | Inr x \<Rightarrow> f x)"

text \<open>
  A slice also has a capacity: the underlying array may go on behind the slice's last
  element. A slice expression \<^verbatim>\<open>b[lo:hi]\<close> is in range when \<open>lo \<le> hi\<close> and \<open>hi\<close> is at
  most the capacity, not the length, and its result may hold elements of the array that
  are behind the length of \<open>b\<close>. Where a function takes such an expression of its
  argument, the argument is a \<open>goslice\<close>: its elements, and the elements of the array that
  follow them up to the capacity. \<open>exact\<close> is the slice whose capacity is its length.
\<close>

record goslice =
  elems :: bytes
  spare :: bytes

definition arrayOf :: "goslice \<Rightarrow> bytes" where
  "arrayOf s = elems s @ spare s"

definition cap :: "goslice \<Rightarrow> nat" where
  "cap s = length (arrayOf s)"

definition exact :: "bytes \<Rightarrow> goslice" where
  "exact b = \<lparr>elems = b, spare = []\<rparr>"

definition reslice :: "goslice \<Rightarrow> nat \<Rightarrow> nat \<Rightarrow> panic + goslice" where
  "reslice s lo hi =
     (if lo \<le> hi \<and> hi \<le> cap s then
        Inr \<lparr>elems = take (hi - lo) (drop lo (arrayOf s)), spare = drop hi (arrayOf s)\<rparr>
      else Inl SliceBoundsOutOfRange)"

text \<open>
  In \<^verbatim>\<open>b[lo:]\<close> the upper bound is the length of \<open>b\<close>, so the expression is in range
  when \<open>lo\<close> is at most the length, and its elements are those of \<open>b\<close> from \<open>lo\<close> on,
  whatever the capacity is. An index expression \<^verbatim>\<open>b[i]\<close> is bounded by the length too.
\<close>

definition sliceFrom :: "bytes \<Rightarrow> nat \<Rightarrow> panic + bytes" where
  "sliceFrom b lo = (if lo \<le> length b then Inr (drop lo b) else Inl SliceBoundsOutOfRange)"

definition index :: "bytes \<Rightarrow> nat \<Rightarrow> panic + byte" where
  "index b i = (if i < length b then Inr (b ! i) else Inl IndexOutOfRange)"

text \<open>\<^verbatim>\<open>binary.LittleEndian\<close>: \<^verbatim>\<open>PutUint16\<close>, \<^verbatim>\<open>PutUint32\<close> and \<^verbatim>\<open>Uint32\<close>.\<close>

definition PutUint16 :: "16 word \<Rightarrow> bytes" where
  "PutUint16 v = [ucast v, ucast (drop_bit 8 v)]"

definition PutUint32 :: "32 word \<Rightarrow> bytes" where
  "PutUint32 v = [ucast v, ucast (drop_bit 8 v), ucast (drop_bit 16 v), ucast (drop_bit 24 v)]"

fun Uint32 :: "bytes \<Rightarrow> panic + 32 word" where
  "Uint32 (b0 # b1 # b2 # b3 # bs) =
     Inr (ucast b0 OR push_bit 8 (ucast b1) OR push_bit 16 (ucast b2) OR push_bit 24 (ucast b3))"
| "Uint32 bs = Inl IndexOutOfRange"

section \<open>Hash\<close>

text \<open>
  \<^verbatim>\<open>type Hash []byte\<close>: a Hash is a byte slice, and a value becomes a Hash by the
  conversion \<^verbatim>\<open>Hash(b)\<close>, which has no failing branch. \<^verbatim>\<open>iotago.MessageHashLength\<close>
  is 32.
\<close>

type_synonym Hash = bytes

definition MessageHashLength :: nat where
  "MessageHashLength = 32"

definition Hash_conv :: "bytes \<Rightarrow> panic + Hash" where
  "Hash_conv b = Inr b"

definition NullMessageID :: "panic + Hash" where
  "NullMessageID = Hash_conv (replicate MessageHashLength 0)"

definition ID :: "Hash \<Rightarrow> panic + bytes" where
  "ID h =
     (if length h = MessageHashLength then Inr (take MessageHashLength h)
      else Inl (UnknownHashLength (length h)))"

section \<open>Message metadata\<close>

text \<open>
  \<^verbatim>\<open>bitmask.BitMask\<close> is a byte; the shifted constant \<^verbatim>\<open>1 << pos\<close> has that type,
  so it is 0 from position 8 on.
\<close>

type_synonym BitMask = byte

definition SetBit :: "BitMask \<Rightarrow> nat \<Rightarrow> BitMask" where
  "SetBit bitmask pos = bitmask OR push_bit pos 1"

definition ClearBit :: "BitMask \<Rightarrow> nat \<Rightarrow> BitMask" where
  "ClearBit bitmask pos = bitmask AND NOT (push_bit pos 1)"

definition HasBit :: "BitMask \<Rightarrow> nat \<Rightarrow> bool" where
  "HasBit bitmask pos = (bitmask AND push_bit pos 1 > 0)"

definition ModifyBit :: "BitMask \<Rightarrow> nat \<Rightarrow> bool \<Rightarrow> BitMask" where
  "ModifyBit bitmask pos state = (if state then SetBit bitmask pos else ClearBit bitmask pos)"

definition MessageMetadataSolid :: nat where
  "MessageMetadataSolid = 0"

definition MessageMetadataConfirmed :: nat where
  "MessageMetadataConfirmed = 1"

definition MessageMetadataConflicting :: nat where
  "MessageMetadataConflicting = 2"

text \<open>
  The struct, with the modified flag of the embedded \<^verbatim>\<open>StorableObjectFlags\<close> (the dirty
  marker). \<^verbatim>\<open>solidificationTimestamp\<close> is an \<^verbatim>\<open>int32\<close>, kept as its 32 bits; a
  \<^verbatim>\<open>milestone.Index\<close> is a \<^verbatim>\<open>uint32\<close>. The lock is not modelled: the methods run one
  at a time.
\<close>

record MessageMetadata =
  modified :: bool
  messageID :: Hash
  metadata :: BitMask
  solidificationTimestamp :: "32 word"
  confirmationIndex :: "32 word"
  youngestConeRootIndex :: "32 word"
  oldestConeRootIndex :: "32 word"
  coneRootCalculationIndex :: "32 word"
  parent1MessageID :: Hash
  parent2MessageID :: Hash

definition NewMessageMetadata :: "Hash \<Rightarrow> Hash \<Rightarrow> Hash \<Rightarrow> MessageMetadata" where
  "NewMessageMetadata mid p1 p2 =
     \<lparr>modified = False, messageID = mid, metadata = 0, solidificationTimestamp = 0,
      confirmationIndex = 0, youngestConeRootIndex = 0, oldestConeRootIndex = 0,
      coneRootCalculationIndex = 0, parent1MessageID = p1, parent2MessageID = p2\<rparr>"

definition SetModified :: "bool \<Rightarrow> MessageMetadata \<Rightarrow> MessageMetadata" where
  "SetModified b m = m\<lparr>modified := b\<rparr>"

definition IsSolid :: "MessageMetadata \<Rightarrow> bool" where
  "IsSolid m = HasBit (metadata m) MessageMetadataSolid"

text \<open>
  \<^verbatim>\<open>SetSolid\<close> reads the clock: \<open>now\<close> is the value of \<^verbatim>\<open>time.Now().Unix()\<close>, an
  \<^verbatim>\<open>int64\<close>, which the conversion to \<^verbatim>\<open>int32\<close> truncates.
\<close>

definition SetSolid :: "64 word \<Rightarrow> bool \<Rightarrow> MessageMetadata \<Rightarrow> MessageMetadata" where
  "SetSolid now solid m =
     (if solid \<noteq> HasBit (metadata m) MessageMetadataSolid then
        SetModified True
          (m\<lparr>solidificationTimestamp := (if solid then ucast now else 0),
             metadata := ModifyBit (metadata m) MessageMetadataSolid solid\<rparr>)
      else m)"

definition IsConfirmed :: "MessageMetadata \<Rightarrow> bool" where
  "IsConfirmed m = HasBit (metadata m) MessageMetadataConfirmed"

definition GetConfirmed :: "MessageMetadata \<Rightarrow> bool \<times> 32 word" where
  "GetConfirmed m = (HasBit (metadata m) MessageMetadataConfirmed, confirmationIndex m)"

definition SetConfirmed :: "bool \<Rightarrow> 32 word \<Rightarrow> MessageMetadata \<Rightarrow> MessageMetadata" where
  "SetConfirmed confirmed ci m =
     (if confirmed \<noteq> HasBit (metadata m) MessageMetadataConfirmed then
        SetModified True
          (m\<lparr>confirmationIndex := (if confirmed then ci else 0),
             metadata := ModifyBit (metadata m) MessageMetadataConfirmed confirmed\<rparr>)
      else m)"

definition IsConflicting :: "MessageMetadata \<Rightarrow> bool" where
  "IsConflicting m = HasBit (metadata m) MessageMetadataConflicting"

definition SetConflicting :: "bool \<Rightarrow> MessageMetadata \<Rightarrow> MessageMetadata" where
  "SetConflicting conflicting m =
     (if conflicting \<noteq> HasBit (metadata m) MessageMetadataConflicting then
        SetModified True
          (m\<lparr>metadata := ModifyBit (metadata m) MessageMetadataConflicting conflicting\<rparr>)
      else m)"

definition SetConeRootIndexes ::
  "32 word \<Rightarrow> 32 word \<Rightarrow> 32 word \<Rightarrow> MessageMetadata \<Rightarrow> MessageMetadata" where
  "SetConeRootIndexes ycri ocri ci m =
     SetModified True
       (m\<lparr>youngestConeRootIndex := ycri, oldestConeRootIndex := ocri,
          coneRootCalculationIndex := ci\<rparr>)"

definition GetConeRootIndexes :: "MessageMetadata \<Rightarrow> 32 word \<times> 32 word \<times> 32 word" where
  "GetConeRootIndexes m =
     (youngestConeRootIndex m, oldestConeRootIndex m, coneRootCalculationIndex m)"

definition ObjectStorageKey :: "MessageMetadata \<Rightarrow> bytes" where
  "ObjectStorageKey m = messageID m"

definition ObjectStorageValue :: "MessageMetadata \<Rightarrow> bytes" where
  "ObjectStorageValue m =
     [metadata m] @ PutUint32 (solidificationTimestamp m) @ PutUint32 (confirmationIndex m)
       @ PutUint32 (youngestConeRootIndex m) @ PutUint32 (oldestConeRootIndex m)
       @ PutUint32 (coneRootCalculationIndex m)
       @ parent1MessageID m @ parent2MessageID m"

text \<open>
  \<^verbatim>\<open>MetadataFactory\<close> returns a pair of the object and an error, and the error it
  returns is always \<^verbatim>\<open>nil\<close>; what can stop it is the panic of a slice expression or
  of an index that is out of range. The expressions are evaluated in the order of the
  source: the three arguments of \<^verbatim>\<open>NewMessageMetadata\<close>, then the fields one by one.
  The key and the value are slices with a capacity; a Hash that the record holds is
  modelled by its elements.
\<close>

definition MetadataFactory ::
  "goslice \<Rightarrow> goslice \<Rightarrow> panic + (MessageMetadata \<times> error option)" where
  "MetadataFactory k d =
     andThen (reslice k 0 32) (\<lambda>mid.
     andThen (reslice d 21 (21 + 32)) (\<lambda>p1.
     andThen (reslice d (21 + 32) (21 + 32 + 32)) (\<lambda>p2.
     andThen (index (elems d) 0) (\<lambda>b.
     andThen (andThen (reslice d 1 5) (\<lambda>s. Uint32 (elems s))) (\<lambda>ts.
     andThen (andThen (reslice d 5 9) (\<lambda>s. Uint32 (elems s))) (\<lambda>ci.
     andThen (andThen (reslice d 9 13) (\<lambda>s. Uint32 (elems s))) (\<lambda>ycri.
     andThen (andThen (reslice d 13 17) (\<lambda>s. Uint32 (elems s))) (\<lambda>ocri.
     andThen (andThen (reslice d 17 21) (\<lambda>s. Uint32 (elems s))) (\<lambda>crci.
       Inr ((NewMessageMetadata (elems mid) (elems p1) (elems p2))
              \<lparr>metadata := b, solidificationTimestamp := ts, confirmationIndex := ci,
               youngestConeRootIndex := ycri, oldestConeRootIndex := ocri,
               coneRootCalculationIndex := crci\<rparr>, None))))))))))"

section \<open>The key-value store\<close>

text \<open>
  The store is the \<^verbatim>\<open>kvstore\<close> package of hive.go, an external collaborator: an ordered
  store of byte keys and byte values with a point lookup, an iteration over the keys that
  have a given prefix, in ascending key order, which the consumer can stop, and batched
  mutations with \<^verbatim>\<open>Set\<close>, \<^verbatim>\<open>Delete\<close>, \<^verbatim>\<open>Commit\<close> and \<^verbatim>\<open>Cancel\<close>. Setting and deleting
  only stage an operation in the batch; \<^verbatim>\<open>Commit\<close> applies the staged operations to the
  store in the order they were staged, all or none; \<^verbatim>\<open>Cancel\<close> discards them.

  The store is an association list. Where the package returns an \<^verbatim>\<open>error\<close>, the failure
  is decided by a parameter: \<open>setFault\<close> for \<^verbatim>\<open>Set\<close> (it sees what is staged, the key and
  the value), \<open>commitFault\<close> for \<^verbatim>\<open>Commit\<close>, \<open>getFault\<close> for \<^verbatim>\<open>Get\<close> and \<open>iterFault\<close>
  for the iteration (asked before each key is handed to the consumer). The result of
  \<^verbatim>\<open>Delete\<close> is discarded by its only caller, and staging a delete always succeeds here.
\<close>

type_synonym kvstore = "(bytes \<times> bytes) list"

datatype mutation = SetOp bytes bytes | DeleteOp bytes

datatype batch_state = Open | Cancelled | Committed

record BatchedMutations =
  staged :: "mutation list"
  state :: batch_state

record faults =
  setFault :: "mutation list \<Rightarrow> bytes \<Rightarrow> bytes \<Rightarrow> error option"
  commitFault :: "mutation list \<Rightarrow> error option"
  getFault :: "bytes \<Rightarrow> error option"
  iterFault :: "bytes \<Rightarrow> error option"

definition Batched :: BatchedMutations where
  "Batched = \<lparr>staged = [], state = Open\<rparr>"

definition Set_kv ::
  "faults \<Rightarrow> bytes \<Rightarrow> bytes \<Rightarrow> BatchedMutations \<Rightarrow> error option \<times> BatchedMutations" where
  "Set_kv F k v b =
     (case setFault F (staged b) k v of
        Some e \<Rightarrow> (Some e, b)
      | None \<Rightarrow> (None, b\<lparr>staged := staged b @ [SetOp k v]\<rparr>))"

definition Delete_kv :: "bytes \<Rightarrow> BatchedMutations \<Rightarrow> error option \<times> BatchedMutations" where
  "Delete_kv k b = (None, b\<lparr>staged := staged b @ [DeleteOp k]\<rparr>)"

definition Cancel :: "BatchedMutations \<Rightarrow> BatchedMutations" where
  "Cancel b = b\<lparr>staged := [], state := Cancelled\<rparr>"

fun apply_mutation :: "mutation \<Rightarrow> kvstore \<Rightarrow> kvstore" where
  "apply_mutation (SetOp k v) st = AList.update k v st"
| "apply_mutation (DeleteOp k) st = AList.delete k st"

definition Commit ::
  "faults \<Rightarrow> BatchedMutations \<Rightarrow> kvstore \<Rightarrow> error option \<times> BatchedMutations \<times> kvstore" where
  "Commit F b st =
     (case commitFault F (staged b) of
        Some e \<Rightarrow> (Some e, b, st)
      | None \<Rightarrow> (None, b\<lparr>state := Committed\<rparr>, fold apply_mutation (staged b) st))"

definition Get :: "faults \<Rightarrow> kvstore \<Rightarrow> bytes \<Rightarrow> error + bytes" where
  "Get F st k =
     (case getFault F k of
        Some e \<Rightarrow> Inl e
      | None \<Rightarrow> (case map_of st k of None \<Rightarrow> Inl ErrKeyNotFound | Some v \<Rightarrow> Inr v))"

definition keysWithPrefix :: "kvstore \<Rightarrow> bytes \<Rightarrow> bytes list" where
  "keysWithPrefix st p = sort (filter (\<lambda>k. take (length p) k = p) (remdups (map fst st)))"

text \<open>
  The consumer of an iteration is a Go closure that writes the variables it captured; here
  it takes the captured state and returns it with the flag that says whether to go on.
\<close>

fun iterate ::
  "faults \<Rightarrow> (bytes \<Rightarrow> 'a \<Rightarrow> bool \<times> 'a) \<Rightarrow> bytes list \<Rightarrow> 'a \<Rightarrow> error option \<times> 'a" where
  "iterate F consumer [] acc = (None, acc)"
| "iterate F consumer (k # ks) acc =
     (case iterFault F k of
        Some e \<Rightarrow> (Some e, acc)
      | None \<Rightarrow>
          (case consumer k acc of
             (True, acc') \<Rightarrow> iterate F consumer ks acc'
           | (False, acc') \<Rightarrow> (None, acc')))"

definition IterateKeys ::
  "faults \<Rightarrow> kvstore \<Rightarrow> bytes \<Rightarrow> (bytes \<Rightarrow> 'a \<Rightarrow> bool \<times> 'a) \<Rightarrow> 'a \<Rightarrow> error option \<times> 'a" where
  "IterateKeys F st p consumer acc = iterate F consumer (keysWithPrefix st p) acc"

section \<open>The UTXO ledger\<close>

text \<open>
  Modelled from the spec: the structs \<^verbatim>\<open>Output\<close> and \<^verbatim>\<open>Spent\<close> are declared in files
  that are missing from the sources. The spec gives an output its owning transaction id,
  its index within that transaction, the receiving address and an amount, and has a
  spent output wrap the output and carry what identifies the transaction that consumed
  it. The transaction id and the address are Go arrays of 32 bytes
  (\<^verbatim>\<open>iotago.SignedTransactionPayloadHash\<close>, \<^verbatim>\<open>iotago.Ed25519Address\<close>); they are byte
  lists here, and \<open>wellFormed\<close> says that they have that length. The output index is a
  \<^verbatim>\<open>uint16\<close>.
\<close>

record Output =
  TransactionID :: bytes
  OutputIndex :: "16 word"
  Address :: bytes
  Amount :: "64 word"

record Spent =
  SpentOutput :: Output
  TargetTransactionID :: bytes

definition wellFormed :: "Output \<Rightarrow> bool" where
  "wellFormed out = (length (TransactionID out) = 32 \<and> length (Address out) = 32)"

text \<open>
  The four key prefixes and the encodings of the values are declared elsewhere in the
  package; they are parameters of the model. Nothing is assumed of the encodings, and of
  the prefixes only, where a theorem says so, that they are four different bytes.
\<close>

record params =
  UTXOStoreKeyPrefixOutput :: byte
  UTXOStoreKeyPrefixUnspent :: byte
  UTXOStoreKeyPrefixSpent :: byte
  UTXOStoreKeyPrefixMilestoneDiffs :: byte
  outputValue :: "Output \<Rightarrow> bytes"
  outputLoad :: "bytes \<Rightarrow> bytes \<Rightarrow> error + Output"
  spentValue :: "Spent \<Rightarrow> bytes"

definition distinctPrefixes :: "params \<Rightarrow> bool" where
  "distinctPrefixes C =
     distinct [UTXOStoreKeyPrefixOutput C, UTXOStoreKeyPrefixUnspent C,
               UTXOStoreKeyPrefixSpent C, UTXOStoreKeyPrefixMilestoneDiffs C]"

text \<open>
  The methods that give the keys of an output and of a spent output are missing from the
  sources. The spec gives the key of the Output index as transactionID(32) ++
  outputIndex(2, little-endian), and the keys of the Unspent and of the Spent index as
  address(32) ++ transactionID(32) ++ outputIndex(2). The functions of the package agree:
  \<^verbatim>\<open>ReadOutputForTransactionWithoutLocking\<close> builds the first key that way, and
  \<^verbatim>\<open>UnspentOutputsForAddress\<close> and \<^verbatim>\<open>SpentOutputsForAddress\<close> look for an address in
  the first 32 bytes behind the prefix and for the output's key behind it.
\<close>

text \<open>
  Modelled from the spec: \<^verbatim>\<open>Output.kvStorableKey\<close>, missing from the sources, is the key
  of the Output index.
\<close>

definition Output_kvStorableKey :: "Output \<Rightarrow> bytes" where
  "Output_kvStorableKey out = TransactionID out @ PutUint16 (OutputIndex out)"

text \<open>
  Modelled from the spec: \<^verbatim>\<open>Output.UTXOKey\<close>, missing from the sources, is the key that
  \<^verbatim>\<open>markAsUnspent\<close> puts behind the prefix of the Unspent index.
\<close>

definition UTXOKey :: "Output \<Rightarrow> bytes" where
  "UTXOKey out = Address out @ TransactionID out @ PutUint16 (OutputIndex out)"

text \<open>
  Modelled from the spec: \<^verbatim>\<open>Spent.kvStorableKey\<close>, missing from the sources, is the one
  key that \<^verbatim>\<open>storeSpentAndRemoveUnspent\<close> puts behind the prefix of the Unspent index and
  behind the prefix of the Spent index, so it is the key with the address.
\<close>

definition Spent_kvStorableKey :: "Spent \<Rightarrow> bytes" where
  "Spent_kvStorableKey spent = UTXOKey (SpentOutput spent)"


text \<open>
  The consumer of \<^verbatim>\<open>UnspentOutputsForAddress\<close>. The captured variable is the slice
  \<^verbatim>\<open>outputs\<close>; the slice expression \<^verbatim>\<open>key[33:]\<close> panics on a key of fewer than 33
  bytes, and the panic ends the whole call, so the state is \<open>panic + Output list\<close>.
\<close>

definition unspentConsumer ::
  "params \<Rightarrow> faults \<Rightarrow> kvstore \<Rightarrow> bytes \<Rightarrow> panic + Output list \<Rightarrow> bool \<times> (panic + Output list)" where
  "unspentConsumer C F st key acc =
     (case acc of
        Inl p \<Rightarrow> (False, Inl p)
      | Inr outputs \<Rightarrow>
          (case sliceFrom key 33 of
             Inl p \<Rightarrow> (False, Inl p)
           | Inr suffix \<Rightarrow>
               (let outputKey = [UTXOStoreKeyPrefixOutput C] @ suffix
                in case Get F st outputKey of
                     Inl err \<Rightarrow> (False, Inr outputs)
                   | Inr v \<Rightarrow>
                       (case outputLoad C (tl outputKey) v of
                          Inl err \<Rightarrow> (False, Inr outputs)
                        | Inr output \<Rightarrow> (True, Inr (outputs @ [output]))))))"

definition UnspentOutputsForAddress ::
  "params \<Rightarrow> faults \<Rightarrow> kvstore \<Rightarrow> bytes \<Rightarrow> panic + (Output list \<times> error option)" where
  "UnspentOutputsForAddress C F st address =
     (let addressKeyPrefix = [UTXOStoreKeyPrefixUnspent C] @ address
      in case IterateKeys F st addressKeyPrefix (unspentConsumer C F st) (Inr []) of
           (err, Inl p) \<Rightarrow> Inl p
         | (err, Inr outputs) \<Rightarrow> Inr (outputs, err))"

definition storeOutput ::
  "params \<Rightarrow> faults \<Rightarrow> Output \<Rightarrow> BatchedMutations \<Rightarrow> error option \<times> BatchedMutations" where
  "storeOutput C F output mutations =
     Set_kv F ([UTXOStoreKeyPrefixOutput C] @ Output_kvStorableKey output)
       (outputValue C output) mutations"

definition markAsUnspent ::
  "params \<Rightarrow> faults \<Rightarrow> Output \<Rightarrow> BatchedMutations \<Rightarrow> error option \<times> BatchedMutations" where
  "markAsUnspent C F output mutations =
     Set_kv F ([UTXOStoreKeyPrefixUnspent C] @ UTXOKey output) [] mutations"

definition storeSpentAndRemoveUnspent ::
  "params \<Rightarrow> faults \<Rightarrow> Spent \<Rightarrow> BatchedMutations \<Rightarrow> error option \<times> BatchedMutations" where
  "storeSpentAndRemoveUnspent C F spent mutations =
     (let key = Spent_kvStorableKey spent;
          unspentKey = [UTXOStoreKeyPrefixUnspent C] @ key;
          spentKey = [UTXOStoreKeyPrefixSpent C] @ key;
          mutations' = snd (Delete_kv unspentKey mutations)
      in Set_kv F spentKey (spentValue C spent) mutations')"

text \<open>The lengths are converted to \<^verbatim>\<open>uint32\<close>, which wraps at \<open>2 ^ 32\<close>.\<close>

definition diffValue :: "Output list \<Rightarrow> Spent list \<Rightarrow> bytes" where
  "diffValue newOutputs newSpents =
     PutUint32 (of_nat (length newOutputs)) @ concat (map Output_kvStorableKey newOutputs)
       @ PutUint32 (of_nat (length newSpents)) @ concat (map Spent_kvStorableKey newSpents)"

definition storeDiff ::
  "params \<Rightarrow> faults \<Rightarrow> 32 word \<Rightarrow> Output list \<Rightarrow> Spent list \<Rightarrow> BatchedMutations
     \<Rightarrow> error option \<times> BatchedMutations" where
  "storeDiff C F msIndex newOutputs newSpents mutations =
     Set_kv F ([UTXOStoreKeyPrefixMilestoneDiffs C] @ PutUint32 msIndex)
       (diffValue newOutputs newSpents) mutations"

text \<open>
  The two loops of \<^verbatim>\<open>ApplyConfirmation\<close>. A step that returns an error cancels the batch
  and ends the call with that error.
\<close>

fun storeOutputs ::
  "params \<Rightarrow> faults \<Rightarrow> Output list \<Rightarrow> BatchedMutations \<Rightarrow> error option \<times> BatchedMutations" where
  "storeOutputs C F [] mutation = (None, mutation)"
| "storeOutputs C F (output # rest) mutation =
     (case storeOutput C F output mutation of
        (Some err, m1) \<Rightarrow> (Some err, Cancel m1)
      | (None, m1) \<Rightarrow>
          (case markAsUnspent C F output m1 of
             (Some err, m2) \<Rightarrow> (Some err, Cancel m2)
           | (None, m2) \<Rightarrow> storeOutputs C F rest m2))"

fun storeSpents ::
  "params \<Rightarrow> faults \<Rightarrow> Spent list \<Rightarrow> BatchedMutations \<Rightarrow> error option \<times> BatchedMutations" where
  "storeSpents C F [] mutation = (None, mutation)"
| "storeSpents C F (spent # rest) mutation =
     (case storeSpentAndRemoveUnspent C F spent mutation of
        (Some err, m1) \<Rightarrow> (Some err, Cancel m1)
      | (None, m1) \<Rightarrow> storeSpents C F rest m1)"

definition ApplyConfirmation ::
  "params \<Rightarrow> faults \<Rightarrow> 32 word \<Rightarrow> Output list \<Rightarrow> Spent list \<Rightarrow> kvstore
     \<Rightarrow> error option \<times> BatchedMutations \<times> kvstore" where
  "ApplyConfirmation C F msIndex newOutputs newSpents st =
     (case storeOutputs C F newOutputs Batched of
        (Some err, m1) \<Rightarrow> (Some err, m1, st)
      | (None, m1) \<Rightarrow>
          (case storeSpents C F newSpents m1 of
             (Some err, m2) \<Rightarrow> (Some err, m2, st)
           | (None, m2) \<Rightarrow>
               (case storeDiff C F msIndex newOutputs newSpents m2 of
                  (Some err, m3) \<Rightarrow> (Some err, Cancel m3, st)
                | (None, m3) \<Rightarrow> Commit F m3 st)))"

section \<open>Auxiliary definitions\<close>

text \<open>The 32-bit little-endian word that starts at position \<open>n\<close> of a byte list.\<close>

definition word_at :: "bytes \<Rightarrow> nat \<Rightarrow> 32 word" where
  "word_at b n =
     ucast (b ! n) OR push_bit 8 (ucast (b ! (n + 1))) OR push_bit 16 (ucast (b ! (n + 2)))
       OR push_bit 24 (ucast (b ! (n + 3)))"

text \<open>
  The operations a call of \<^verbatim>\<open>ApplyConfirmation\<close> stages, in the order it stages them:
  two for each new output, two for each new spent output, and the diff. \<open>firstFault\<close>
  is the first error that staging a list of operations meets, if there is one.
\<close>

definition outputMutations :: "params \<Rightarrow> Output \<Rightarrow> mutation list" where
  "outputMutations C out =
     [SetOp ([UTXOStoreKeyPrefixOutput C] @ Output_kvStorableKey out) (outputValue C out),
      SetOp ([UTXOStoreKeyPrefixUnspent C] @ UTXOKey out) []]"

definition spentMutations :: "params \<Rightarrow> Spent \<Rightarrow> mutation list" where
  "spentMutations C spent =
     [DeleteOp ([UTXOStoreKeyPrefixUnspent C] @ Spent_kvStorableKey spent),
      SetOp ([UTXOStoreKeyPrefixSpent C] @ Spent_kvStorableKey spent) (spentValue C spent)]"

definition confirmationMutations ::
  "params \<Rightarrow> 32 word \<Rightarrow> Output list \<Rightarrow> Spent list \<Rightarrow> mutation list" where
  "confirmationMutations C msIndex newOutputs newSpents =
     concat (map (outputMutations C) newOutputs) @ concat (map (spentMutations C) newSpents)
       @ [SetOp ([UTXOStoreKeyPrefixMilestoneDiffs C] @ PutUint32 msIndex)
            (diffValue newOutputs newSpents)]"

fun firstFault :: "faults \<Rightarrow> mutation list \<Rightarrow> mutation list \<Rightarrow> error option" where
  "firstFault F sofar [] = None"
| "firstFault F sofar (DeleteOp k # ops) = firstFault F (sofar @ [DeleteOp k]) ops"
| "firstFault F sofar (SetOp k v # ops) =
     (case setFault F sofar k v of
        Some e \<Rightarrow> Some e
      | None \<Rightarrow> firstFault F (sofar @ [SetOp k v]) ops)"

definition cancelled :: BatchedMutations where
  "cancelled = \<lparr>staged = [], state = Cancelled\<rparr>"

text \<open>The keys that are in the store after a mutation, from those that were.\<close>

fun keysAfter :: "mutation \<Rightarrow> bytes set \<Rightarrow> bytes set" where
  "keysAfter (SetOp k v) K = insert k K"
| "keysAfter (DeleteOp k) K = K - {k}"


text \<open>
  Whether an identity is in an index. The Output index has the identity's key. The
  Unspent and the Spent index have it under an address, so the identity is in the index
  when the store has a key of the index's prefix, 32 bytes of address and the identity.
\<close>

definition inOutputIndex :: "params \<Rightarrow> kvstore \<Rightarrow> bytes \<Rightarrow> 16 word \<Rightarrow> bool" where
  "inOutputIndex C st transactionID outputIndex =
     (map_of st ([UTXOStoreKeyPrefixOutput C] @ transactionID @ PutUint16 outputIndex) \<noteq> None)"

definition indexedUnder :: "byte \<Rightarrow> kvstore \<Rightarrow> bytes \<Rightarrow> 16 word \<Rightarrow> bool" where
  "indexedUnder p st transactionID outputIndex =
     list_ex (\<lambda>k. length k = 67 \<and> take 1 k = [p]
                 \<and> drop 33 k = transactionID @ PutUint16 outputIndex) (map fst st)"

definition inUnspentIndex :: "params \<Rightarrow> kvstore \<Rightarrow> bytes \<Rightarrow> 16 word \<Rightarrow> bool" where
  "inUnspentIndex C = indexedUnder (UTXOStoreKeyPrefixUnspent C)"

definition inSpentIndex :: "params \<Rightarrow> kvstore \<Rightarrow> bytes \<Rightarrow> 16 word \<Rightarrow> bool" where
  "inSpentIndex C = indexedUnder (UTXOStoreKeyPrefixSpent C)"

text \<open>
  The calls for which the ledger stays consistent: the new outputs are well formed, have
  identities that differ from each other and are not in the Output index; every new spent
  output is well formed and is one the store has as unspent or as spent under that
  address, or one of the call's new outputs.
\<close>

definition freshOutputs :: "params \<Rightarrow> kvstore \<Rightarrow> Output list \<Rightarrow> bool" where
  "freshOutputs C st outs =
     (distinct (map Output_kvStorableKey outs)
      \<and> list_all (\<lambda>out. wellFormed out
            \<and> map_of st ([UTXOStoreKeyPrefixOutput C] @ Output_kvStorableKey out) = None) outs)"

definition spendable :: "params \<Rightarrow> kvstore \<Rightarrow> Output list \<Rightarrow> Spent \<Rightarrow> bool" where
  "spendable C st outs spent =
     (wellFormed (SpentOutput spent)
      \<and> (map_of st ([UTXOStoreKeyPrefixUnspent C] @ Spent_kvStorableKey spent) \<noteq> None
         \<or> map_of st ([UTXOStoreKeyPrefixSpent C] @ Spent_kvStorableKey spent) \<noteq> None
         \<or> Spent_kvStorableKey spent \<in> set (map UTXOKey outs)))"

definition validCall :: "params \<Rightarrow> kvstore \<Rightarrow> Output list \<Rightarrow> Spent list \<Rightarrow> bool" where
  "validCall C st outs spents =
     (freshOutputs C st outs \<and> list_all (spendable C st outs) spents)"

text \<open>
  A sequence of calls of \<^verbatim>\<open>ApplyConfirmation\<close>, each on the store the one before left (a
  call that returns an error leaves the store as it was), and the sequences whose calls
  are all valid on the store they meet.
\<close>

type_synonym confirmation = "32 word \<times> Output list \<times> Spent list"

fun applyConfirmations :: "params \<Rightarrow> faults \<Rightarrow> confirmation list \<Rightarrow> kvstore \<Rightarrow> kvstore" where
  "applyConfirmations C F [] st = st"
| "applyConfirmations C F ((i, outs, spents) # calls) st =
     applyConfirmations C F calls (snd (snd (ApplyConfirmation C F i outs spents st)))"

fun validConfirmations :: "params \<Rightarrow> faults \<Rightarrow> confirmation list \<Rightarrow> kvstore \<Rightarrow> bool" where
  "validConfirmations C F [] st = True"
| "validConfirmations C F ((i, outs, spents) # calls) st =
     (validCall C st outs spents
      \<and> validConfirmations C F calls (snd (snd (ApplyConfirmation C F i outs spents st))))"

text \<open>
  The invariant of the ledger, on the set of the store's keys: an entry of the Unspent
  or of the Spent index has its output in the Output index; an output in the Output
  index has an entry in one of the two; and one identity has one entry in the two
  together.
\<close>

definition ledgerInv :: "params \<Rightarrow> bytes set \<Rightarrow> bool" where
  "ledgerInv C K =
     ((\<forall>p a ik. (p = UTXOStoreKeyPrefixUnspent C \<or> p = UTXOStoreKeyPrefixSpent C)
          \<and> length a = 32 \<and> length ik = 34 \<and> p # a @ ik \<in> K
          \<longrightarrow> UTXOStoreKeyPrefixOutput C # ik \<in> K)
      \<and> (\<forall>ik. length ik = 34 \<and> UTXOStoreKeyPrefixOutput C # ik \<in> K
          \<longrightarrow> (\<exists>p a. (p = UTXOStoreKeyPrefixUnspent C \<or> p = UTXOStoreKeyPrefixSpent C)
                 \<and> length a = 32 \<and> p # a @ ik \<in> K))
      \<and> (\<forall>p a p' a' ik.
            (p = UTXOStoreKeyPrefixUnspent C \<or> p = UTXOStoreKeyPrefixSpent C)
          \<and> (p' = UTXOStoreKeyPrefixUnspent C \<or> p' = UTXOStoreKeyPrefixSpent C)
          \<and> length a = 32 \<and> length a' = 32 \<and> length ik = 34
          \<and> p # a @ ik \<in> K \<and> p' # a' @ ik \<in> K
          \<longrightarrow> p = p' \<and> a = a'))"

section \<open>Instances for the examples\<close>

text \<open>
  Parameters with the prefixes 0 to 3 and an encoding of an output as its address and its
  amount (8 bytes, little-endian), with the decoder that reads it back; a store that
  never fails, one whose third \<^verbatim>\<open>Set\<close> of a batch fails, one whose iteration fails at a
  key and one whose \<^verbatim>\<open>Get\<close> fails at a key; two outputs of one address, and entries that spend the first.
\<close>

definition PutUint64 :: "64 word \<Rightarrow> bytes" where
  "PutUint64 v = map (\<lambda>i. ucast (drop_bit (8 * i) v)) [0..<8]"

definition exampleOutputLoad :: "bytes \<Rightarrow> bytes \<Rightarrow> error + Output" where
  "exampleOutputLoad k v =
     (if length k = 34 \<and> length v = 40 then
        Inr \<lparr>TransactionID = take 32 k,
             OutputIndex = ucast (k ! 32) OR push_bit 8 (ucast (k ! 33)),
             Address = take 32 v,
             Amount = foldr (\<lambda>b w. ucast b OR push_bit 8 w) (drop 32 v) 0\<rparr>
      else Inl (DecodeError (length v)))"

definition exampleParams :: params where
  "exampleParams =
     \<lparr>UTXOStoreKeyPrefixOutput = 0, UTXOStoreKeyPrefixUnspent = 1, UTXOStoreKeyPrefixSpent = 2,
      UTXOStoreKeyPrefixMilestoneDiffs = 3,
      outputValue = (\<lambda>out. Address out @ PutUint64 (Amount out)),
      outputLoad = exampleOutputLoad,
      spentValue = TargetTransactionID\<rparr>"

definition noFaults :: faults where
  "noFaults =
     \<lparr>setFault = (\<lambda>sofar k v. None), commitFault = (\<lambda>ops. None), getFault = (\<lambda>k. None),
      iterFault = (\<lambda>k. None)\<rparr>"

definition thirdSetFails :: faults where
  "thirdSetFails =
     noFaults\<lparr>setFault := (\<lambda>sofar k v. if length sofar = 2 then Some (StoreIOError 5)
                                     else None)\<rparr>"

definition outputA :: Output where
  "outputA =
     \<lparr>TransactionID = replicate 32 1, OutputIndex = 0, Address = replicate 32 170,
      Amount = 100\<rparr>"

definition outputB :: Output where
  "outputB =
     \<lparr>TransactionID = replicate 32 3, OutputIndex = 1, Address = replicate 32 170,
      Amount = 7\<rparr>"

definition spentA :: Spent where
  "spentA = \<lparr>SpentOutput = outputA, TargetTransactionID = replicate 32 2\<rparr>"

definition spentAElsewhere :: Spent where
  "spentAElsewhere =
     \<lparr>SpentOutput = outputA\<lparr>Address := replicate 32 187\<rparr>,
      TargetTransactionID = replicate 32 2\<rparr>"


definition getFailsAtA :: faults where
  "getFailsAtA =
     noFaults\<lparr>getFault := (\<lambda>k. if k = [UTXOStoreKeyPrefixOutput exampleParams]
                                         @ Output_kvStorableKey outputA
                               then Some (StoreIOError 3) else None)\<rparr>"

definition afterA :: kvstore where
  "afterA = snd (snd (ApplyConfirmation exampleParams noFaults 5 [outputA] [] []))"

definition storeA :: kvstore where
  "storeA =
     [([UTXOStoreKeyPrefixUnspent exampleParams] @ UTXOKey outputB, []),
      ([UTXOStoreKeyPrefixUnspent exampleParams] @ UTXOKey outputA, []),
      ([UTXOStoreKeyPrefixOutput exampleParams] @ Output_kvStorableKey outputA,
       outputValue exampleParams outputA)]"


definition exampleCalls :: "confirmation list" where
  "exampleCalls = [(5, [outputA], []), (6, [outputB], [spentA])]"

section \<open>Properties of the byte encodings\<close>

lemma Uint32_PutUint32: "Uint32 (PutUint32 v) = Inr v"
proof -
  have "(ucast (ucast v :: byte) :: 32 word) OR push_bit 8 (ucast (ucast (drop_bit 8 v) :: byte))
      OR push_bit 16 (ucast (ucast (drop_bit 16 v) :: byte))
      OR push_bit 24 (ucast (ucast (drop_bit 24 v) :: byte)) = v"
  proof (rule bit_word_eqI)
    fix n assume "n < LENGTH(32)"
    then show "bit ((ucast (ucast v :: byte) :: 32 word)
      OR push_bit 8 (ucast (ucast (drop_bit 8 v) :: byte))
      OR push_bit 16 (ucast (ucast (drop_bit 16 v) :: byte))
      OR push_bit 24 (ucast (ucast (drop_bit 24 v) :: byte))) n = bit v n"
      by (cases "n < 8"; cases "n < 16"; cases "n < 24") (auto simp: bit_simps)
  qed
  then show ?thesis by (simp add: PutUint32_def)
qed

lemma length_PutUint32: "length (PutUint32 v) = 4"
  by (simp add: PutUint32_def)

lemma length_PutUint16: "length (PutUint16 v) = 2"
  by (simp add: PutUint16_def)

section \<open>Decoding and encoding the message metadata\<close>

lemma andThen_Inr: "andThen (Inr x) f = f x"
  by (simp add: andThen_def)

lemma take4_drop:
  "n + 4 \<le> length b \<Longrightarrow> take 4 (drop n b) = [b ! n, b ! (n + 1), b ! (n + 2), b ! (n + 3)]"
  by (rule nth_equalityI) (auto simp: nth_Cons' numeral_eq_Suc less_Suc_eq)

lemma read_word:
  "lo + 4 \<le> cap s \<Longrightarrow>
     andThen (reslice s lo (lo + 4)) (\<lambda>s. Uint32 (elems s)) = Inr (word_at (arrayOf s) lo)"
  by (simp add: reslice_def cap_def andThen_Inr take4_drop word_at_def)

lemma word_at_PutUint32: "word_at (pre @ PutUint32 v @ post) (length pre) = v"
  using Uint32_PutUint32[of v]
  by (simp add: word_at_def PutUint32_def nth_append)

lemma MetadataFactory_short:
  "cap k < 32 \<or> cap d < 85 \<Longrightarrow> MetadataFactory k d = Inl SliceBoundsOutOfRange"
  by (auto simp: MetadataFactory_def reslice_def andThen_def)

lemma MetadataFactory_empty:
  "32 \<le> cap k \<Longrightarrow> 85 \<le> cap d \<Longrightarrow> elems d = []
     \<Longrightarrow> MetadataFactory k d = Inl IndexOutOfRange"
  by (simp add: MetadataFactory_def reslice_def index_def andThen_def)

lemma MetadataFactory_long:
  assumes "32 \<le> cap k" "85 \<le> cap d" "elems d \<noteq> []"
  shows "MetadataFactory k d =
     Inr (\<lparr>modified = False, messageID = take 32 (arrayOf k), metadata = arrayOf d ! 0,
           solidificationTimestamp = word_at (arrayOf d) 1,
           confirmationIndex = word_at (arrayOf d) 5,
           youngestConeRootIndex = word_at (arrayOf d) 9,
           oldestConeRootIndex = word_at (arrayOf d) 13,
           coneRootCalculationIndex = word_at (arrayOf d) 17,
           parent1MessageID = take 32 (drop 21 (arrayOf d)),
           parent2MessageID = take 32 (drop 53 (arrayOf d))\<rparr>,
          None)"
proof -
  have w: "andThen (reslice d 1 5) (\<lambda>s. Uint32 (elems s)) = Inr (word_at (arrayOf d) 1)"
    "andThen (reslice d 5 9) (\<lambda>s. Uint32 (elems s)) = Inr (word_at (arrayOf d) 5)"
    "andThen (reslice d 9 13) (\<lambda>s. Uint32 (elems s)) = Inr (word_at (arrayOf d) 9)"
    "andThen (reslice d 13 17) (\<lambda>s. Uint32 (elems s)) = Inr (word_at (arrayOf d) 13)"
    "andThen (reslice d 17 21) (\<lambda>s. Uint32 (elems s)) = Inr (word_at (arrayOf d) 17)"
    using assms read_word[of 1 d] read_word[of 5 d] read_word[of 9 d] read_word[of 13 d]
      read_word[of 17 d]
    by simp_all
  have s: "reslice k 0 32 = Inr \<lparr>elems = take 32 (arrayOf k), spare = drop 32 (arrayOf k)\<rparr>"
    "reslice d 21 (21 + 32)
       = Inr \<lparr>elems = take 32 (drop 21 (arrayOf d)), spare = drop 53 (arrayOf d)\<rparr>"
    "reslice d (21 + 32) (21 + 32 + 32)
       = Inr \<lparr>elems = take 32 (drop 53 (arrayOf d)), spare = drop 85 (arrayOf d)\<rparr>"
    using assms by (simp_all add: reslice_def)
  have i: "index (elems d) 0 = Inr (arrayOf d ! 0)"
    using assms(3) by (simp add: index_def arrayOf_def nth_append)
  show ?thesis
    unfolding MetadataFactory_def w s i andThen_Inr
    by (simp add: NewMessageMetadata_def)
qed

lemma ObjectStorageValue_fields:
  assumes "length (parent1MessageID m) = 32" "length (parent2MessageID m) = 32"
  shows "length (ObjectStorageValue m) = 85"
    "(ObjectStorageValue m @ rest) ! 0 = metadata m"
    "take 32 (drop 21 (ObjectStorageValue m @ rest)) = parent1MessageID m"
    "take 32 (drop 53 (ObjectStorageValue m @ rest)) = parent2MessageID m"
  using assms by (simp_all add: ObjectStorageValue_def length_PutUint32)

text \<open>
  C3: decoding the key and the value of a record whose message id and parents have 32
  bytes gives back the record: every field is the one that was encoded, whatever the
  flags, the timestamp and the indices are, and whatever the capacities of the two
  slices are. The decoded object is a new one, so its modified flag is not set.
\<close>

theorem MetadataFactory_round_trip:
  assumes "length (messageID m) = 32" "length (parent1MessageID m) = 32"
    "length (parent2MessageID m) = 32"
    and "elems k = ObjectStorageKey m" and "elems d = ObjectStorageValue m"
  shows "MetadataFactory k d = Inr (m\<lparr>modified := False\<rparr>, None)"
proof -
  let ?a = "[metadata m]"
  let ?b = "?a @ PutUint32 (solidificationTimestamp m)"
  let ?c = "?b @ PutUint32 (confirmationIndex m)"
  let ?e = "?c @ PutUint32 (youngestConeRootIndex m)"
  let ?f = "?e @ PutUint32 (oldestConeRootIndex m)"
  let ?p = "parent1MessageID m @ parent2MessageID m @ spare d"
  have ad: "arrayOf d = ObjectStorageValue m @ spare d"
    by (simp add: arrayOf_def assms(5))
  have len: "length (ObjectStorageValue m) = 85"
    by (rule ObjectStorageValue_fields(1)[OF assms(2,3)])
  have caps: "32 \<le> cap k" "85 \<le> cap d" "elems d \<noteq> []"
    using assms(1,4) len by (auto simp: cap_def arrayOf_def ObjectStorageKey_def assms(5))
  have w1: "word_at (arrayOf d) 1 = solidificationTimestamp m"
    using word_at_PutUint32[of ?a "solidificationTimestamp m"
        "PutUint32 (confirmationIndex m) @ PutUint32 (youngestConeRootIndex m)
         @ PutUint32 (oldestConeRootIndex m) @ PutUint32 (coneRootCalculationIndex m) @ ?p"]
    by (simp add: ad ObjectStorageValue_def)
  have w2: "word_at (arrayOf d) 5 = confirmationIndex m"
    using word_at_PutUint32[of ?b "confirmationIndex m"
        "PutUint32 (youngestConeRootIndex m)
         @ PutUint32 (oldestConeRootIndex m) @ PutUint32 (coneRootCalculationIndex m) @ ?p"]
    by (simp add: ad ObjectStorageValue_def length_PutUint32)
  have w3: "word_at (arrayOf d) 9 = youngestConeRootIndex m"
    using word_at_PutUint32[of ?c "youngestConeRootIndex m"
        "PutUint32 (oldestConeRootIndex m) @ PutUint32 (coneRootCalculationIndex m) @ ?p"]
    by (simp add: ad ObjectStorageValue_def length_PutUint32)
  have w4: "word_at (arrayOf d) 13 = oldestConeRootIndex m"
    using word_at_PutUint32[of ?e "oldestConeRootIndex m"
        "PutUint32 (coneRootCalculationIndex m) @ ?p"]
    by (simp add: ad ObjectStorageValue_def length_PutUint32)
  have w5: "word_at (arrayOf d) 17 = coneRootCalculationIndex m"
    using word_at_PutUint32[of ?f "coneRootCalculationIndex m" ?p]
    by (simp add: ad ObjectStorageValue_def length_PutUint32)
  have f: "take 32 (arrayOf k) = messageID m" "arrayOf d ! 0 = metadata m"
    "take 32 (drop 21 (arrayOf d)) = parent1MessageID m"
    "take 32 (drop 53 (arrayOf d)) = parent2MessageID m"
  proof -
    show "take 32 (arrayOf k) = messageID m"
      using assms(1,4) by (simp add: arrayOf_def ObjectStorageKey_def)
    show "arrayOf d ! 0 = metadata m"
      unfolding ad by (rule ObjectStorageValue_fields(2)[OF assms(2,3)])
    show "take 32 (drop 21 (arrayOf d)) = parent1MessageID m"
      unfolding ad by (rule ObjectStorageValue_fields(3)[OF assms(2,3)])
    show "take 32 (drop 53 (arrayOf d)) = parent2MessageID m"
      unfolding ad by (rule ObjectStorageValue_fields(4)[OF assms(2,3)])
  qed
  show ?thesis
    unfolding MetadataFactory_long[OF caps] w1 w2 w3 w4 w5 f
    by simp
qed

theorem MetadataFactory_round_trip_witness:
  "MetadataFactory \<lparr>elems = replicate 32 1, spare = replicate 4 9\<rparr>
     \<lparr>elems = ObjectStorageValue
        (SetConeRootIndexes 7 5 9 (SetConfirmed True 42
           (NewMessageMetadata (replicate 32 1) (replicate 32 17) (replicate 32 34)))),
      spare = replicate 43 8\<rparr>
   = Inr (SetModified False (SetConeRootIndexes 7 5 9 (SetConfirmed True 42
           (NewMessageMetadata (replicate 32 1) (replicate 32 17) (replicate 32 34)))), None)"
  using MetadataFactory_round_trip [of "SetConeRootIndexes 7 5 9 (SetConfirmed True 42
           (NewMessageMetadata (replicate 32 1) (replicate 32 17) (replicate 32 34)))"
        "\<lparr>elems = replicate 32 1, spare = replicate 4 9\<rparr>"
        "\<lparr>elems = ObjectStorageValue
        (SetConeRootIndexes 7 5 9 (SetConfirmed True 42
           (NewMessageMetadata (replicate 32 1) (replicate 32 17) (replicate 32 34)))),
      spare = replicate 43 8\<rparr>"]
  by (simp add: SetConeRootIndexes_def SetConfirmed_def SetModified_def NewMessageMetadata_def
      ObjectStorageKey_def HasBit_def)

text \<open>
  C4, as the code has it: \<^verbatim>\<open>MetadataFactory\<close> checks no length and returns no error.
  It panics in a slice expression when the capacity of the key is under 32 or the
  capacity of the value is under 85, and in the index expression when the value has no
  element. In every other case it returns a record and the error \<^verbatim>\<open>nil\<close>, whatever the
  lengths of the key and of the value are: the record is the one decoded from the first
  32 bytes of the key's array and the first 85 bytes of the value's array, which may lie
  behind the length of the slice, and what follows them is ignored.
\<close>

theorem MetadataFactory_lengths:
  "(cap k < 32 \<or> cap d < 85 \<longrightarrow> MetadataFactory k d = Inl SliceBoundsOutOfRange)
   \<and> (32 \<le> cap k \<and> 85 \<le> cap d \<and> elems d = []
        \<longrightarrow> MetadataFactory k d = Inl IndexOutOfRange)
   \<and> (32 \<le> cap k \<and> 85 \<le> cap d \<and> elems d \<noteq> [] \<longrightarrow>
        (\<exists>m. MetadataFactory k d = Inr (m, None)
           \<and> MetadataFactory (exact (take 32 (arrayOf k))) (exact (take 85 (arrayOf d)))
               = Inr (m, None)
           \<and> messageID m = take 32 (arrayOf k)
           \<and> parent1MessageID m = take 32 (drop 21 (arrayOf d))
           \<and> parent2MessageID m = take 32 (drop 53 (arrayOf d))))"
proof (intro conjI impI)
  assume "cap k < 32 \<or> cap d < 85"
  then show "MetadataFactory k d = Inl SliceBoundsOutOfRange"
    by (rule MetadataFactory_short)
next
  assume "32 \<le> cap k \<and> 85 \<le> cap d \<and> elems d = []"
  then show "MetadataFactory k d = Inl IndexOutOfRange"
    by (simp add: MetadataFactory_empty)
next
  assume a: "32 \<le> cap k \<and> 85 \<le> cap d \<and> elems d \<noteq> []"
  let ?k = "exact (take 32 (arrayOf k))" and ?d = "exact (take 85 (arrayOf d))"
  have l: "32 \<le> length (arrayOf k)" "85 \<le> length (arrayOf d)"
    using a by (simp_all add: cap_def)
  have e: "arrayOf ?k = take 32 (arrayOf k)" "arrayOf ?d = take 85 (arrayOf d)"
    by (simp_all add: exact_def arrayOf_def)
  have c: "32 \<le> cap ?k" "85 \<le> cap ?d"
    using l by (simp_all add: cap_def e)
  have n: "elems ?d \<noteq> []"
    using l by (auto simp: exact_def)
  have w: "\<And>n. n + 4 \<le> 85 \<Longrightarrow> word_at (take 85 (arrayOf d)) n = word_at (arrayOf d) n"
    by (simp add: word_at_def)
  have "MetadataFactory ?k ?d = MetadataFactory k d"
    using a l unfolding MetadataFactory_long[OF c n] e
    by (simp add: MetadataFactory_long w take_drop min_def)
  then show "\<exists>m. MetadataFactory k d = Inr (m, None)
           \<and> MetadataFactory ?k ?d = Inr (m, None)
           \<and> messageID m = take 32 (arrayOf k)
           \<and> parent1MessageID m = take 32 (drop 21 (arrayOf d))
           \<and> parent2MessageID m = take 32 (drop 53 (arrayOf d))"
    using a by (simp add: MetadataFactory_long)
qed

theorem MetadataFactory_lengths_witness:
  "MetadataFactory (exact (replicate 31 7)) (exact (replicate 85 0)) = Inl SliceBoundsOutOfRange
   \<and> MetadataFactory (exact (replicate 32 7)) (exact (replicate 84 0))
       = Inl SliceBoundsOutOfRange
   \<and> MetadataFactory (exact (replicate 32 7)) \<lparr>elems = [], spare = replicate 85 0\<rparr>
       = Inl IndexOutOfRange
   \<and> (\<exists>m. MetadataFactory \<lparr>elems = replicate 31 7, spare = replicate 33 9\<rparr>
              \<lparr>elems = replicate 83 0, spare = replicate 45 5\<rparr> = Inr (m, None)
          \<and> messageID m = replicate 31 7 @ [9]
          \<and> parent2MessageID m = replicate 30 0 @ [5, 5])
   \<and> (\<exists>m. MetadataFactory (exact (replicate 33 7)) (exact (replicate 86 0)) = Inr (m, None)
          \<and> MetadataFactory (exact (replicate 32 7)) (exact (replicate 85 0)) = Inr (m, None)
          \<and> messageID m = replicate 32 7)"
proof -
  have h: "cap (exact (replicate 31 7)) < 32" "cap (exact (replicate 84 0)) < 85"
    "32 \<le> cap (exact (replicate 32 7)) \<and> 85 \<le> cap \<lparr>elems = [], spare = replicate 85 0\<rparr>
       \<and> elems \<lparr>elems = [], spare = replicate 85 0\<rparr> = []"
    "32 \<le> cap \<lparr>elems = replicate 31 7, spare = replicate 33 9\<rparr>
       \<and> 85 \<le> cap \<lparr>elems = replicate 83 0, spare = replicate 45 5\<rparr>
       \<and> elems \<lparr>elems = replicate 83 0, spare = replicate 45 5\<rparr> \<noteq> []"
    "32 \<le> cap (exact (replicate 33 7)) \<and> 85 \<le> cap (exact (replicate 86 0))
       \<and> elems (exact (replicate 86 0)) \<noteq> []"
    by (simp_all add: cap_def arrayOf_def exact_def)
  have v: "take 32 (arrayOf \<lparr>elems = replicate 31 7, spare = replicate 33 (9 :: byte)\<rparr>)
        = replicate 31 7 @ [9]"
    "take 32 (drop 53 (arrayOf \<lparr>elems = replicate 83 0, spare = replicate 45 (5 :: byte)\<rparr>))
        = replicate 30 0 @ [5, 5]"
    "take 32 (arrayOf (exact (replicate 33 (7 :: byte)))) = replicate 32 7"
    "take 85 (arrayOf (exact (replicate 86 (0 :: byte)))) = replicate 85 0"
    by code_simp+
  show ?thesis
    using h v
      MetadataFactory_lengths [of "exact (replicate 31 7)" "exact (replicate 85 0)"]
      MetadataFactory_lengths [of "exact (replicate 32 7)" "exact (replicate 84 0)"]
      MetadataFactory_lengths [of "exact (replicate 32 7)" "\<lparr>elems = [], spare = replicate 85 0\<rparr>"]
      MetadataFactory_lengths [of "\<lparr>elems = replicate 31 7, spare = replicate 33 9\<rparr>"
        "\<lparr>elems = replicate 83 0, spare = replicate 45 5\<rparr>"]
      MetadataFactory_lengths [of "exact (replicate 33 7)" "exact (replicate 86 0)"]
    by auto
qed

text \<open>
  C4 as stated fails: a key of 33 bytes and a value of 86 bytes are decoded, with no
  error, into the record of an all-zero value.
\<close>

theorem MetadataFactory_accepts_long_input:
  "MetadataFactory (exact (replicate 33 7)) (exact (replicate 86 0))
     = Inr (NewMessageMetadata (replicate 32 7) (replicate 32 0) (replicate 32 0), None)"
  by code_simp

section \<open>The hash\<close>

text \<open>
  C5, as the code has it: making a Hash of a byte buffer never fails, whatever the
  length of the buffer; the length is checked when the Hash is used. \<^verbatim>\<open>ID\<close> returns the
  32 bytes of a Hash of 32 bytes and panics with the unknown length on any other.
\<close>

theorem Hash_length_checked_by_ID:
  "Hash_conv b = Inr b
   \<and> ID b = (if length b = 32 then Inr b else Inl (UnknownHashLength (length b)))"
  by (simp add: Hash_conv_def ID_def MessageHashLength_def)

text \<open>C5 as stated fails: a buffer of 31 bytes becomes a Hash.\<close>

theorem Hash_conv_31_bytes: "Hash_conv (replicate 31 0) = Inr (replicate 31 0)"
  by (simp add: Hash_conv_def)

section \<open>The flags of the message metadata\<close>

lemma HasBit_SetBit: "pos < 8 \<Longrightarrow> HasBit (SetBit b pos) pos"
  unfolding HasBit_def SetBit_def
  by (simp add: word_greater_zero_iff bit_eq_iff bit_simps) (metis bit_simps)

lemma HasBit_zero: "\<not> HasBit 0 pos"
  by (simp add: HasBit_def)

lemma SetConfirmed_same: "IsConfirmed m = confirmed \<Longrightarrow> SetConfirmed confirmed ci m = m"
  by (simp add: SetConfirmed_def IsConfirmed_def)

lemma SetSolid_same: "IsSolid m = solid \<Longrightarrow> SetSolid now solid m = m"
  by (simp add: SetSolid_def IsSolid_def)

lemma IsConfirmed_SetConfirmed: "\<not> IsConfirmed m \<Longrightarrow> IsConfirmed (SetConfirmed True ci m)"
  by (simp add: SetConfirmed_def IsConfirmed_def SetModified_def ModifyBit_def HasBit_SetBit
      MessageMetadataConfirmed_def)

lemma IsSolid_SetSolid: "\<not> IsSolid m \<Longrightarrow> IsSolid (SetSolid now True m)"
  by (simp add: SetSolid_def IsSolid_def SetModified_def ModifyBit_def HasBit_SetBit
      MessageMetadataSolid_def)

text \<open>
  C8: on a new record, after \<^verbatim>\<open>SetConfirmed(true, 42)\<close> the call
  \<^verbatim>\<open>SetConfirmed(true, 99)\<close> changes nothing: the record is the same, field by field;
  had the modified flag been cleared in between, it would stay cleared; and
  \<^verbatim>\<open>GetConfirmed\<close> returns true and 42.
\<close>

theorem SetConfirmed_twice:
  "SetConfirmed True 99 (SetConfirmed True 42 (NewMessageMetadata mid p1 p2))
     = SetConfirmed True 42 (NewMessageMetadata mid p1 p2)
   \<and> SetConfirmed True 99
        (SetModified False (SetConfirmed True 42 (NewMessageMetadata mid p1 p2)))
     = SetModified False (SetConfirmed True 42 (NewMessageMetadata mid p1 p2))
   \<and> GetConfirmed (SetConfirmed True 99 (SetConfirmed True 42 (NewMessageMetadata mid p1 p2)))
     = (True, 42)"
proof -
  let ?m = "NewMessageMetadata mid p1 p2"
  let ?m1 = "SetConfirmed True 42 ?m"
  have fresh: "\<not> IsConfirmed ?m"
    by (simp add: IsConfirmed_def NewMessageMetadata_def HasBit_zero)
  then have c1: "IsConfirmed ?m1"
    by (rule IsConfirmed_SetConfirmed)
  then have c2: "IsConfirmed (SetModified False ?m1)"
    by (simp add: IsConfirmed_def SetModified_def)
  have ci: "confirmationIndex ?m1 = 42"
    using fresh by (simp add: SetConfirmed_def IsConfirmed_def SetModified_def)
  have same: "SetConfirmed True 99 ?m1 = ?m1"
    using c1 by (simp add: SetConfirmed_same)
  moreover have "SetConfirmed True 99 (SetModified False ?m1) = SetModified False ?m1"
    using c2 by (simp add: SetConfirmed_same)
  moreover have "GetConfirmed ?m1 = (True, 42)"
    using c1 ci by (simp add: GetConfirmed_def IsConfirmed_def)
  ultimately show ?thesis by simp
qed

text \<open>
  C9: on a record that is not solid, the first \<^verbatim>\<open>SetSolid(true)\<close> sets the solid flag,
  sets the timestamp to the clock's value (truncated to 32 bits) and sets the modified
  flag, so the record is no longer the one it was; a second \<^verbatim>\<open>SetSolid(true)\<close>, at
  whatever time, returns the record unchanged, and leaves the modified flag cleared if
  it was cleared in between.
\<close>

theorem SetSolid_twice:
  assumes "\<not> IsSolid m"
  shows "IsSolid (SetSolid t1 True m)
    \<and> solidificationTimestamp (SetSolid t1 True m) = ucast t1
    \<and> modified (SetSolid t1 True m)
    \<and> SetSolid t1 True m \<noteq> m
    \<and> SetSolid t2 True (SetSolid t1 True m) = SetSolid t1 True m
    \<and> SetSolid t2 True (SetModified False (SetSolid t1 True m))
         = SetModified False (SetSolid t1 True m)"
proof -
  let ?m1 = "SetSolid t1 True m"
  have s1: "IsSolid ?m1"
    using assms by (rule IsSolid_SetSolid)
  then have s2: "IsSolid (SetModified False ?m1)"
    by (simp add: IsSolid_def SetModified_def)
  have "solidificationTimestamp ?m1 = ucast t1" "modified ?m1"
    using assms by (simp_all add: SetSolid_def IsSolid_def SetModified_def)
  moreover have "?m1 \<noteq> m"
    using s1 assms by auto
  moreover have "SetSolid t2 True ?m1 = ?m1"
    using s1 by (simp add: SetSolid_same)
  moreover have "SetSolid t2 True (SetModified False ?m1) = SetModified False ?m1"
    using s2 by (simp add: SetSolid_same)
  ultimately show ?thesis using s1 by simp
qed

theorem SetSolid_twice_witness:
  "\<not> IsSolid (NewMessageMetadata (replicate 32 1) (replicate 32 17) (replicate 32 34))
   \<and> IsSolid (SetSolid 1600000000 True
        (NewMessageMetadata (replicate 32 1) (replicate 32 17) (replicate 32 34)))
   \<and> solidificationTimestamp (SetSolid 1600000000 True
        (NewMessageMetadata (replicate 32 1) (replicate 32 17) (replicate 32 34))) = 1600000000
   \<and> SetSolid 1600000060 True (SetModified False (SetSolid 1600000000 True
        (NewMessageMetadata (replicate 32 1) (replicate 32 17) (replicate 32 34))))
        = SetModified False (SetSolid 1600000000 True
            (NewMessageMetadata (replicate 32 1) (replicate 32 17) (replicate 32 34)))"
proof -
  have h: "\<not> IsSolid (NewMessageMetadata (replicate 32 1) (replicate 32 17) (replicate 32 34))"
    by (simp add: IsSolid_def NewMessageMetadata_def HasBit_def)
  show ?thesis
    using h SetSolid_twice [OF h, of 1600000000 1600000060] by simp
qed

section \<open>What a confirmation stages\<close>

lemma firstFault_append:
  "firstFault F acc (xs @ ys) =
     (case firstFault F acc xs of Some e \<Rightarrow> Some e | None \<Rightarrow> firstFault F (acc @ xs) ys)"
  by (induction F acc xs rule: firstFault.induct) (auto split: option.splits)

lemma Cancel_eq: "Cancel b = cancelled"
  by (simp add: Cancel_def cancelled_def)

lemma output_step:
  "(case storeOutput C F out b of
      (Some err, m1) \<Rightarrow> (Some err, Cancel m1)
    | (None, m1) \<Rightarrow>
        (case markAsUnspent C F out m1 of
           (Some err, m2) \<Rightarrow> (Some err, Cancel m2)
         | (None, m2) \<Rightarrow> K m2))
   = (case firstFault F (staged b) (outputMutations C out) of
        Some e \<Rightarrow> (Some e, cancelled)
      | None \<Rightarrow> K (b\<lparr>staged := staged b @ outputMutations C out\<rparr>))"
  by (simp add: storeOutput_def markAsUnspent_def Set_kv_def outputMutations_def Cancel_eq
      split: option.splits)

lemma spent_step:
  "(case storeSpentAndRemoveUnspent C F spent b of
      (Some err, m1) \<Rightarrow> (Some err, Cancel m1)
    | (None, m1) \<Rightarrow> K m1)
   = (case firstFault F (staged b) (spentMutations C spent) of
        Some e \<Rightarrow> (Some e, cancelled)
      | None \<Rightarrow> K (b\<lparr>staged := staged b @ spentMutations C spent\<rparr>))"
  by (simp add: storeSpentAndRemoveUnspent_def Delete_kv_def Set_kv_def spentMutations_def
      Cancel_eq Let_def split: option.splits)

lemma storeOutputs_eq:
  "storeOutputs C F outs b =
     (case firstFault F (staged b) (concat (map (outputMutations C) outs)) of
        Some e \<Rightarrow> (Some e, cancelled)
      | None \<Rightarrow> (None, b\<lparr>staged := staged b @ concat (map (outputMutations C) outs)\<rparr>))"
proof (induction outs arbitrary: b)
  case Nil
  then show ?case by simp
next
  case (Cons out outs)
  show ?case
    by (simp add: output_step Cons.IH firstFault_append split: option.splits)
qed

lemma storeSpents_eq:
  "storeSpents C F spents b =
     (case firstFault F (staged b) (concat (map (spentMutations C) spents)) of
        Some e \<Rightarrow> (Some e, cancelled)
      | None \<Rightarrow> (None, b\<lparr>staged := staged b @ concat (map (spentMutations C) spents)\<rparr>))"
proof (induction spents arbitrary: b)
  case Nil
  then show ?case by simp
next
  case (Cons spent spents)
  show ?case
    by (simp add: spent_step Cons.IH firstFault_append split: option.splits)
qed

lemma diff_step:
  "(case storeDiff C F i outs spents b of
      (Some err, m3) \<Rightarrow> (Some err, Cancel m3, st)
    | (None, m3) \<Rightarrow> K m3)
   = (case firstFault F (staged b)
             [SetOp ([UTXOStoreKeyPrefixMilestoneDiffs C] @ PutUint32 i) (diffValue outs spents)] of
        Some e \<Rightarrow> (Some e, cancelled, st)
      | None \<Rightarrow> K (b\<lparr>staged := staged b @
             [SetOp ([UTXOStoreKeyPrefixMilestoneDiffs C] @ PutUint32 i) (diffValue outs spents)]\<rparr>))"
  by (simp add: storeDiff_def Set_kv_def Cancel_eq split: option.splits)

lemma ApplyConfirmation_eq:
  "ApplyConfirmation C F i outs spents st =
     (case firstFault F [] (confirmationMutations C i outs spents) of
        Some e \<Rightarrow> (Some e, cancelled, st)
      | None \<Rightarrow>
          Commit F \<lparr>staged = confirmationMutations C i outs spents, state = Open\<rparr> st)"
  by (simp add: ApplyConfirmation_def storeOutputs_eq storeSpents_eq diff_step
      Batched_def confirmationMutations_def firstFault_append
      split: option.splits)

lemma ApplyConfirmation_success:
  assumes "ApplyConfirmation C F i outs spents st = (None, b, st')"
  shows "st' = fold apply_mutation (confirmationMutations C i outs spents) st"
    and "b = \<lparr>staged = confirmationMutations C i outs spents, state = Committed\<rparr>"
  using assms
  by (auto simp: ApplyConfirmation_eq Commit_def split: option.splits)

text \<open>
  C1, as the code has it. If staging one of the operations of a call fails, the call
  returns that error with the batch cancelled and the store as it was; whenever the call
  returns an error, the store is as it was. Nothing but a failure of the store makes the
  call fail: when no \<^verbatim>\<open>Set\<close> and not the \<^verbatim>\<open>Commit\<close> fails, the call commits its
  operations, whatever the new outputs and spent outputs are, so a spent output that is
  not in the Output index is not a failure.
\<close>

theorem ApplyConfirmation_failure_atomic:
  "(firstFault F [] (confirmationMutations C i outs spents) = Some e
      \<longrightarrow> ApplyConfirmation C F i outs spents st = (Some e, cancelled, st))
   \<and> (fst (ApplyConfirmation C F i outs spents st) \<noteq> None
      \<longrightarrow> snd (snd (ApplyConfirmation C F i outs spents st)) = st)
   \<and> (firstFault F [] (confirmationMutations C i outs spents) = None
        \<and> commitFault F (confirmationMutations C i outs spents) = None
      \<longrightarrow> ApplyConfirmation C F i outs spents st
          = (None, \<lparr>staged = confirmationMutations C i outs spents, state = Committed\<rparr>,
             fold apply_mutation (confirmationMutations C i outs spents) st))"
  by (auto simp: ApplyConfirmation_eq Commit_def split: option.splits)

theorem ApplyConfirmation_failure_atomic_witness:
  "firstFault thirdSetFails [] (confirmationMutations exampleParams 6 [outputA, outputB] [spentA])
     = Some (StoreIOError 5)
   \<and> ApplyConfirmation exampleParams thirdSetFails 6 [outputA, outputB] [spentA] afterA
     = (Some (StoreIOError 5), cancelled, afterA)
   \<and> snd (snd (ApplyConfirmation exampleParams thirdSetFails 6 [outputA, outputB] [spentA]
        afterA)) = afterA
   \<and> ApplyConfirmation exampleParams noFaults 6 [outputB] [spentA] afterA
     = (None,
        \<lparr>staged = confirmationMutations exampleParams 6 [outputB] [spentA], state = Committed\<rparr>,
        fold apply_mutation (confirmationMutations exampleParams 6 [outputB] [spentA]) afterA)"
proof -
  have h: "firstFault thirdSetFails []
      (confirmationMutations exampleParams 6 [outputA, outputB] [spentA]) = Some (StoreIOError 5)"
    by code_simp
  have n: "firstFault noFaults [] (confirmationMutations exampleParams 6 [outputB] [spentA]) = None
      \<and> commitFault noFaults (confirmationMutations exampleParams 6 [outputB] [spentA]) = None"
    by code_simp
  show ?thesis
    using h n
      ApplyConfirmation_failure_atomic [of thirdSetFails exampleParams 6 "[outputA, outputB]"
        "[spentA]" "StoreIOError 5" afterA]
      ApplyConfirmation_failure_atomic [of noFaults exampleParams 6 "[outputB]" "[spentA]"
        "StoreIOError 5" afterA]
    by simp
qed

text \<open>
  C1 as stated fails: on the empty store, a call whose one spent output is not in the
  Output index returns no error, commits, and leaves the Spent record in the store.
\<close>

theorem ApplyConfirmation_spent_of_missing_output:
  "Get noFaults []
     ([UTXOStoreKeyPrefixOutput exampleParams] @ Output_kvStorableKey (SpentOutput spentA))
     = Inl ErrKeyNotFound
   \<and> fst (ApplyConfirmation exampleParams noFaults 6 [] [spentA] []) = None
   \<and> state (fst (snd (ApplyConfirmation exampleParams noFaults 6 [] [spentA] []))) = Committed
   \<and> snd (snd (ApplyConfirmation exampleParams noFaults 6 [] [spentA] [])) \<noteq> []
   \<and> Get noFaults (snd (snd (ApplyConfirmation exampleParams noFaults 6 [] [spentA] [])))
        ([UTXOStoreKeyPrefixSpent exampleParams] @ Spent_kvStorableKey spentA)
      = Inr (replicate 32 2)"
  by code_simp

section \<open>The store after a commit\<close>

lemma map_of_fold_no_delete:
  "DeleteOp k \<notin> set ops \<Longrightarrow> map_of st k \<noteq> None
     \<Longrightarrow> map_of (fold apply_mutation ops st) k \<noteq> None"
proof (induction ops arbitrary: st)
  case Nil
  then show ?case by simp
next
  case (Cons m ops)
  have "map_of (apply_mutation m st) k \<noteq> None"
    using Cons.prems by (cases m) (auto simp: update_conv' delete_conv')
  then show ?case using Cons by simp
qed

lemma map_of_fold_set_kept:
  assumes "SetOp k v \<in> set ops" "DeleteOp k \<notin> set ops"
  shows "map_of (fold apply_mutation ops st) k \<noteq> None"
proof -
  from assms(1) obtain pre post where ops: "ops = pre @ SetOp k v # post"
    by (auto simp: in_set_conv_decomp)
  have "map_of (apply_mutation (SetOp k v) (fold apply_mutation pre st)) k \<noteq> None"
    by (simp add: update_conv')
  moreover have "DeleteOp k \<notin> set post" using assms(2) ops by simp
  ultimately show ?thesis
    using map_of_fold_no_delete[of k post "apply_mutation (SetOp k v) (fold apply_mutation pre st)"]
    by (simp add: ops)
qed

lemma map_of_fold_no_set:
  "\<forall>v. SetOp k v \<notin> set ops \<Longrightarrow> map_of st k = None
     \<Longrightarrow> map_of (fold apply_mutation ops st) k = None"
proof (induction ops arbitrary: st)
  case Nil
  then show ?case by simp
next
  case (Cons m ops)
  have "map_of (apply_mutation m st) k = None"
    using Cons.prems by (cases m) (auto simp: update_conv' delete_conv')
  then show ?case using Cons by simp
qed

lemma map_of_fold_deleted:
  assumes "\<forall>v. SetOp k v \<notin> set post"
  shows "map_of (fold apply_mutation (pre @ DeleteOp k # post) st) k = None"
  using map_of_fold_no_set[OF assms, of "apply_mutation (DeleteOp k) (fold apply_mutation pre st)"]
  by (simp add: delete_conv')

lemma map_of_fold_last_set:
  "map_of (fold apply_mutation (ops @ [SetOp k v]) st) k = Some v"
  by (simp add: update_conv')

lemma spentMutations_shape:
  "m \<in> set (concat (map (spentMutations C) sps)) \<Longrightarrow>
     (\<exists>k. m = DeleteOp (UTXOStoreKeyPrefixUnspent C # k))
     \<or> (\<exists>k v. m = SetOp (UTXOStoreKeyPrefixSpent C # k) v)"
  by (auto simp: spentMutations_def)

lemma outputMutations_shape:
  "m \<in> set (concat (map (outputMutations C) outs)) \<Longrightarrow>
     (\<exists>k v. m = SetOp (UTXOStoreKeyPrefixOutput C # k) v)
     \<or> (\<exists>k v. m = SetOp (UTXOStoreKeyPrefixUnspent C # k) v)"
  by (auto simp: outputMutations_def)

lemma confirmationMutations_shape:
  "m \<in> set (confirmationMutations C i outs spents) \<Longrightarrow>
     (\<exists>k v. m = SetOp (UTXOStoreKeyPrefixOutput C # k) v)
     \<or> (\<exists>k v. m = SetOp (UTXOStoreKeyPrefixUnspent C # k) v)
     \<or> (\<exists>k. m = DeleteOp (UTXOStoreKeyPrefixUnspent C # k))
     \<or> (\<exists>k v. m = SetOp (UTXOStoreKeyPrefixSpent C # k) v)
     \<or> (\<exists>k v. m = SetOp (UTXOStoreKeyPrefixMilestoneDiffs C # k) v)"
  unfolding confirmationMutations_def
  using spentMutations_shape[of m C spents] outputMutations_shape[of m C outs]
  by auto

lemma no_delete_outside_unspent:
  "p \<noteq> UTXOStoreKeyPrefixUnspent C \<Longrightarrow> DeleteOp (p # k) \<notin> set (confirmationMutations C i outs spents)"
  using confirmationMutations_shape[of "DeleteOp (p # k)" C i outs spents] by auto

lemma set_in_outputs_part:
  "out \<in> set outs \<Longrightarrow>
     SetOp ([UTXOStoreKeyPrefixOutput C] @ Output_kvStorableKey out) (outputValue C out)
       \<in> set (confirmationMutations C i outs spents)"
  by (force simp: confirmationMutations_def outputMutations_def)

lemma set_in_spents_part:
  "spent \<in> set spents \<Longrightarrow>
     SetOp ([UTXOStoreKeyPrefixSpent C] @ Spent_kvStorableKey spent) (spentValue C spent)
       \<in> set (confirmationMutations C i outs spents)"
  by (force simp: confirmationMutations_def spentMutations_def)

lemma delete_then_no_set:
  assumes "distinctPrefixes C" "spent \<in> set spents"
  shows "\<exists>pre post. confirmationMutations C i outs spents
            = pre @ DeleteOp ([UTXOStoreKeyPrefixUnspent C] @ Spent_kvStorableKey spent) # post
          \<and> (\<forall>k v. SetOp (UTXOStoreKeyPrefixUnspent C # k) v \<notin> set post)"
proof -
  from assms(2) obtain sp1 sp2 where sp: "spents = sp1 @ spent # sp2"
    by (auto simp: in_set_conv_decomp)
  let ?pre = "concat (map (outputMutations C) outs) @ concat (map (spentMutations C) sp1)"
  let ?post = "SetOp ([UTXOStoreKeyPrefixSpent C] @ Spent_kvStorableKey spent) (spentValue C spent)
      # concat (map (spentMutations C) sp2)
      @ [SetOp ([UTXOStoreKeyPrefixMilestoneDiffs C] @ PutUint32 i) (diffValue outs spents)]"
  have "confirmationMutations C i outs spents
      = ?pre @ DeleteOp ([UTXOStoreKeyPrefixUnspent C] @ Spent_kvStorableKey spent) # ?post"
    by (simp add: confirmationMutations_def sp spentMutations_def)
  moreover have "\<forall>k v. SetOp (UTXOStoreKeyPrefixUnspent C # k) v \<notin> set ?post"
    using assms(1) spentMutations_shape[of _ C sp2]
    by (auto simp: distinctPrefixes_def)
  ultimately show ?thesis by blast
qed

text \<open>
  C7, as the code has it: after a call that succeeded, the value under the prefix of the
  diffs and the milestone index as 4 little-endian bytes is the number of new outputs as
  4 little-endian bytes, the key of each new output in the order given (transaction id,
  then output index as 2 little-endian bytes), the number of new spent outputs as 4
  little-endian bytes, and the key of each spent output in the order given, which is
  the key of the Spent index: address, transaction id, output index.
\<close>

theorem diff_lists_output_keys_and_spent_keys:
  assumes "ApplyConfirmation C F i outs spents st = (None, b, st')"
  shows "map_of st' ([UTXOStoreKeyPrefixMilestoneDiffs C] @ PutUint32 i) =
     Some (PutUint32 (of_nat (length outs))
           @ concat (map (\<lambda>out. TransactionID out @ PutUint16 (OutputIndex out)) outs)
           @ PutUint32 (of_nat (length spents))
           @ concat (map (\<lambda>spent. Address (SpentOutput spent) @ TransactionID (SpentOutput spent)
                              @ PutUint16 (OutputIndex (SpentOutput spent))) spents))"
proof -
  have "st' = fold apply_mutation (confirmationMutations C i outs spents) st"
    using assms by (rule ApplyConfirmation_success)
  moreover have "confirmationMutations C i outs spents =
      (concat (map (outputMutations C) outs) @ concat (map (spentMutations C) spents))
      @ [SetOp ([UTXOStoreKeyPrefixMilestoneDiffs C] @ PutUint32 i) (diffValue outs spents)]"
    by (simp add: confirmationMutations_def)
  ultimately have "map_of st' ([UTXOStoreKeyPrefixMilestoneDiffs C] @ PutUint32 i)
      = Some (diffValue outs spents)"
    by (simp only: map_of_fold_last_set)
  moreover have "Output_kvStorableKey = (\<lambda>out. TransactionID out @ PutUint16 (OutputIndex out))"
    by (rule ext) (simp add: Output_kvStorableKey_def)
  moreover have "Spent_kvStorableKey = (\<lambda>spent. Address (SpentOutput spent)
      @ TransactionID (SpentOutput spent) @ PutUint16 (OutputIndex (SpentOutput spent)))"
    by (rule ext) (simp add: Spent_kvStorableKey_def UTXOKey_def)
  ultimately show ?thesis
    by (simp only: diffValue_def)
qed

theorem diff_lists_output_keys_and_spent_keys_witness:
  "ApplyConfirmation exampleParams noFaults 6 [] [spentA] afterA
     = (None, \<lparr>staged = confirmationMutations exampleParams 6 [] [spentA], state = Committed\<rparr>,
        fold apply_mutation (confirmationMutations exampleParams 6 [] [spentA]) afterA)
   \<and> map_of (fold apply_mutation (confirmationMutations exampleParams 6 [] [spentA]) afterA)
        [3, 6, 0, 0, 0]
     = Some ([0, 0, 0, 0] @ [1, 0, 0, 0] @ replicate 32 170 @ replicate 32 1 @ [0, 0])"
proof -
  have h: "ApplyConfirmation exampleParams noFaults 6 [] [spentA] afterA
     = (None, \<lparr>staged = confirmationMutations exampleParams 6 [] [spentA], state = Committed\<rparr>,
        fold apply_mutation (confirmationMutations exampleParams 6 [] [spentA]) afterA)"
    by (simp add: ApplyConfirmation_eq noFaults_def Commit_def confirmationMutations_def
        spentMutations_def)
  have e: "[UTXOStoreKeyPrefixMilestoneDiffs exampleParams] @ PutUint32 6 = [3, 6, 0, 0, 0]"
    "PutUint32 (of_nat (length ([] :: Output list))) = [0, 0, 0, 0]"
    "PutUint32 (of_nat (length [spentA])) = [1, 0, 0, 0]"
    "Address (SpentOutput spentA) = replicate 32 170"
    "TransactionID (SpentOutput spentA) = replicate 32 1"
    "PutUint16 (OutputIndex (SpentOutput spentA)) = [0, 0]"
    by (simp_all add: exampleParams_def PutUint32_def PutUint16_def spentA_def outputA_def)
  show ?thesis
    using h diff_lists_output_keys_and_spent_keys [OF h]
    by (simp only: e list.map concat.simps append_Nil append_Nil2 simp_thms)
qed

text \<open>
  C7 as stated fails: after output A was confirmed at milestone 5 and spent at milestone
  6, the diff of milestone 6 is not the count and the 34-byte identity key of the spent
  output; its entry starts with the address.
\<close>

theorem diff_spent_entry_has_address:
  "fst (ApplyConfirmation exampleParams noFaults 6 [] [spentA] afterA) = None
   \<and> map_of (snd (snd (ApplyConfirmation exampleParams noFaults 6 [] [spentA] afterA)))
        ([UTXOStoreKeyPrefixMilestoneDiffs exampleParams] @ PutUint32 6)
     \<noteq> Some (PutUint32 (of_nat (length ([] :: Output list)))
           @ concat (map (\<lambda>out. TransactionID out @ PutUint16 (OutputIndex out)) [])
           @ PutUint32 (of_nat (length [spentA]))
           @ concat (map (\<lambda>spent. TransactionID (SpentOutput spent)
                              @ PutUint16 (OutputIndex (SpentOutput spent))) [spentA]))"
  by code_simp

text \<open>
  C10, as the code has it: when an output is among the new outputs of a call that
  succeeds and an entry of the new spent outputs wraps an output of the same transaction
  id, output index and address, then after the commit the Output record is in the store,
  the Unspent marker of the output is not, and its Spent record is. The address matters:
  the marker and the record are stored under it.
\<close>

theorem created_and_spent_in_one_call:
  assumes "distinctPrefixes C"
    and "out \<in> set outs" and "spent \<in> set spents"
    and "TransactionID (SpentOutput spent) = TransactionID out"
    and "OutputIndex (SpentOutput spent) = OutputIndex out"
    and "Address (SpentOutput spent) = Address out"
    and "ApplyConfirmation C F i outs spents st = (None, b, st')"
  shows "map_of st' ([UTXOStoreKeyPrefixOutput C] @ Output_kvStorableKey out) \<noteq> None
    \<and> map_of st' ([UTXOStoreKeyPrefixUnspent C] @ UTXOKey out) = None
    \<and> map_of st' ([UTXOStoreKeyPrefixSpent C] @ UTXOKey out) \<noteq> None"
proof -
  let ?ops = "confirmationMutations C i outs spents"
  have st': "st' = fold apply_mutation ?ops st"
    using assms(7) by (rule ApplyConfirmation_success)
  have key: "Spent_kvStorableKey spent = UTXOKey out"
    using assms(4,5,6) by (simp add: Spent_kvStorableKey_def UTXOKey_def)
  have nd: "\<And>p k. p \<noteq> UTXOStoreKeyPrefixUnspent C \<Longrightarrow> DeleteOp ([p] @ k) \<notin> set ?ops"
    using no_delete_outside_unspent[of _ C _ i outs spents] by simp
  have "map_of st' ([UTXOStoreKeyPrefixOutput C] @ Output_kvStorableKey out) \<noteq> None"
    unfolding st'
    using set_in_outputs_part[OF assms(2)] nd[of "UTXOStoreKeyPrefixOutput C"] assms(1)
    by (intro map_of_fold_set_kept) (auto simp: distinctPrefixes_def)
  moreover have "map_of st' ([UTXOStoreKeyPrefixSpent C] @ UTXOKey out) \<noteq> None"
    unfolding st'
    using set_in_spents_part[OF assms(3), of C i outs] nd[of "UTXOStoreKeyPrefixSpent C"] assms(1)
    by (intro map_of_fold_set_kept) (auto simp: distinctPrefixes_def key)
  moreover have "map_of st' ([UTXOStoreKeyPrefixUnspent C] @ UTXOKey out) = None"
  proof -
    from delete_then_no_set[OF assms(1,3), of i outs] obtain pre post where
      d: "?ops = pre @ DeleteOp ([UTXOStoreKeyPrefixUnspent C] @ UTXOKey out) # post"
      and n: "\<forall>k v. SetOp (UTXOStoreKeyPrefixUnspent C # k) v \<notin> set post"
      by (auto simp: key)
    from n have "\<forall>v. SetOp ([UTXOStoreKeyPrefixUnspent C] @ UTXOKey out) v \<notin> set post"
      by simp
    then show ?thesis
      unfolding st' d by (rule map_of_fold_deleted)
  qed
  ultimately show ?thesis by simp
qed

theorem created_and_spent_in_one_call_witness:
  "distinctPrefixes exampleParams \<and> outputA \<in> set [outputB, outputA]
   \<and> spentA \<in> set [spentA] \<and> SpentOutput spentA = outputA
   \<and> map_of (fold apply_mutation (confirmationMutations exampleParams 5 [outputB, outputA] [spentA]) [])
        ([UTXOStoreKeyPrefixOutput exampleParams] @ Output_kvStorableKey outputA) \<noteq> None
   \<and> map_of (fold apply_mutation (confirmationMutations exampleParams 5 [outputB, outputA] [spentA]) [])
        ([UTXOStoreKeyPrefixUnspent exampleParams] @ UTXOKey outputA) = None
   \<and> map_of (fold apply_mutation (confirmationMutations exampleParams 5 [outputB, outputA] [spentA]) [])
        ([UTXOStoreKeyPrefixSpent exampleParams] @ UTXOKey outputA) \<noteq> None"
proof -
  have dp: "distinctPrefixes exampleParams"
    by (simp add: distinctPrefixes_def exampleParams_def)
  have s: "SpentOutput spentA = outputA"
    by (simp add: spentA_def)
  have h: "ApplyConfirmation exampleParams noFaults 5 [outputB, outputA] [spentA] []
     = (None, \<lparr>staged = confirmationMutations exampleParams 5 [outputB, outputA] [spentA],
                state = Committed\<rparr>,
        fold apply_mutation (confirmationMutations exampleParams 5 [outputB, outputA] [spentA]) [])"
    by (simp add: ApplyConfirmation_eq noFaults_def Commit_def confirmationMutations_def
        spentMutations_def outputMutations_def)
  show ?thesis
    using dp s created_and_spent_in_one_call [OF dp _ _ _ _ _ h, of outputA spentA]
    by simp
qed

text \<open>
  C10 as stated fails: output A is created and, in the same call, an entry with A's
  transaction id and output index but another address is spent. The call succeeds, and
  the identity is in the Unspent index afterwards, under A's address.
\<close>

theorem created_and_spent_other_address:
  "TransactionID (SpentOutput spentAElsewhere) = TransactionID outputA
   \<and> OutputIndex (SpentOutput spentAElsewhere) = OutputIndex outputA
   \<and> fst (ApplyConfirmation exampleParams noFaults 5 [outputA] [spentAElsewhere] []) = None
   \<and> inUnspentIndex exampleParams
        (snd (snd (ApplyConfirmation exampleParams noFaults 5 [outputA] [spentAElsewhere] [])))
        (TransactionID outputA) (OutputIndex outputA)
   \<and> map_of (snd (snd (ApplyConfirmation exampleParams noFaults 5 [outputA] [spentAElsewhere] [])))
        ([UTXOStoreKeyPrefixUnspent exampleParams] @ UTXOKey outputA) \<noteq> None"
  by code_simp

section \<open>The unspent outputs of an address\<close>







text \<open>
  An error of the \<^verbatim>\<open>Get\<close> that joins an entry ends the iteration as a missing record
  does, and the call returns what it has with no error: here the first entry's \<^verbatim>\<open>Get\<close>
  fails.
\<close>

lemma UnspentOutputsForAddress_Get_error:
  "Get getFailsAtA storeA
     ([UTXOStoreKeyPrefixOutput exampleParams] @ Output_kvStorableKey outputA)
     = Inl (StoreIOError 3)
   \<and> UnspentOutputsForAddress exampleParams getFailsAtA storeA (replicate 32 170)
     = Inr ([], None)"
  by code_simp

section \<open>The invariant of the ledger\<close>

lemma ledgerInv_empty: "ledgerInv C {}"
  by (simp add: ledgerInv_def)

lemma ledgerInvD1:
  assumes "ledgerInv C K"
    and "p = UTXOStoreKeyPrefixUnspent C \<or> p = UTXOStoreKeyPrefixSpent C"
    and "length a = 32" "length ik = 34" "p # a @ ik \<in> K"
  shows "UTXOStoreKeyPrefixOutput C # ik \<in> K"
proof -
  from assms(1) have "\<forall>p a ik. (p = UTXOStoreKeyPrefixUnspent C \<or> p = UTXOStoreKeyPrefixSpent C)
          \<and> length a = 32 \<and> length ik = 34 \<and> p # a @ ik \<in> K
          \<longrightarrow> UTXOStoreKeyPrefixOutput C # ik \<in> K"
    unfolding ledgerInv_def by (rule conjunct1)
  then show ?thesis using assms(2-) by blast
qed

lemma ledgerInvD2:
  assumes "ledgerInv C K" and "length ik = 34" "UTXOStoreKeyPrefixOutput C # ik \<in> K"
  shows "\<exists>p a. (p = UTXOStoreKeyPrefixUnspent C \<or> p = UTXOStoreKeyPrefixSpent C)
                 \<and> length a = 32 \<and> p # a @ ik \<in> K"
proof -
  from assms(1) have "\<forall>ik. length ik = 34 \<and> UTXOStoreKeyPrefixOutput C # ik \<in> K
          \<longrightarrow> (\<exists>p a. (p = UTXOStoreKeyPrefixUnspent C \<or> p = UTXOStoreKeyPrefixSpent C)
                 \<and> length a = 32 \<and> p # a @ ik \<in> K)"
    unfolding ledgerInv_def by (rule conjunct1 [OF conjunct2])
  then show ?thesis using assms(2-) by blast
qed

lemma ledgerInvD3:
  assumes "ledgerInv C K"
    and "p = UTXOStoreKeyPrefixUnspent C \<or> p = UTXOStoreKeyPrefixSpent C"
    and "p' = UTXOStoreKeyPrefixUnspent C \<or> p' = UTXOStoreKeyPrefixSpent C"
    and "length a = 32" "length a' = 32" "length ik = 34"
    and "p # a @ ik \<in> K" "p' # a' @ ik \<in> K"
  shows "p = p' \<and> a = a'"
proof -
  from assms(1) have "\<forall>p a p' a' ik.
            (p = UTXOStoreKeyPrefixUnspent C \<or> p = UTXOStoreKeyPrefixSpent C)
          \<and> (p' = UTXOStoreKeyPrefixUnspent C \<or> p' = UTXOStoreKeyPrefixSpent C)
          \<and> length a = 32 \<and> length a' = 32 \<and> length ik = 34
          \<and> p # a @ ik \<in> K \<and> p' # a' @ ik \<in> K
          \<longrightarrow> p = p' \<and> a = a'"
    unfolding ledgerInv_def by (rule conjunct2 [OF conjunct2])
  then show ?thesis using assms(2-) by blast
qed

lemma ledgerInvI:
  assumes "\<And>p a ik. p = UTXOStoreKeyPrefixUnspent C \<or> p = UTXOStoreKeyPrefixSpent C
          \<Longrightarrow> length a = 32 \<Longrightarrow> length ik = 34 \<Longrightarrow> p # a @ ik \<in> K
          \<Longrightarrow> UTXOStoreKeyPrefixOutput C # ik \<in> K"
    and "\<And>ik. length ik = 34 \<Longrightarrow> UTXOStoreKeyPrefixOutput C # ik \<in> K
          \<Longrightarrow> \<exists>p a. (p = UTXOStoreKeyPrefixUnspent C \<or> p = UTXOStoreKeyPrefixSpent C)
                 \<and> length a = 32 \<and> p # a @ ik \<in> K"
    and "\<And>p a p' a' ik. p = UTXOStoreKeyPrefixUnspent C \<or> p = UTXOStoreKeyPrefixSpent C
          \<Longrightarrow> p' = UTXOStoreKeyPrefixUnspent C \<or> p' = UTXOStoreKeyPrefixSpent C
          \<Longrightarrow> length a = 32 \<Longrightarrow> length a' = 32 \<Longrightarrow> length ik = 34
          \<Longrightarrow> p # a @ ik \<in> K \<Longrightarrow> p' # a' @ ik \<in> K
          \<Longrightarrow> p = p' \<and> a = a'"
  shows "ledgerInv C K"
  unfolding ledgerInv_def
proof (intro conjI)
  show "\<forall>p a ik. (p = UTXOStoreKeyPrefixUnspent C \<or> p = UTXOStoreKeyPrefixSpent C)
          \<and> length a = 32 \<and> length ik = 34 \<and> p # a @ ik \<in> K
          \<longrightarrow> UTXOStoreKeyPrefixOutput C # ik \<in> K"
    using assms(1) by blast
  show "\<forall>ik. length ik = 34 \<and> UTXOStoreKeyPrefixOutput C # ik \<in> K
          \<longrightarrow> (\<exists>p a. (p = UTXOStoreKeyPrefixUnspent C \<or> p = UTXOStoreKeyPrefixSpent C)
                 \<and> length a = 32 \<and> p # a @ ik \<in> K)"
    using assms(2) by blast
  show "\<forall>p a p' a' ik.
            (p = UTXOStoreKeyPrefixUnspent C \<or> p = UTXOStoreKeyPrefixSpent C)
          \<and> (p' = UTXOStoreKeyPrefixUnspent C \<or> p' = UTXOStoreKeyPrefixSpent C)
          \<and> length a = 32 \<and> length a' = 32 \<and> length ik = 34
          \<and> p # a @ ik \<in> K \<and> p' # a' @ ik \<in> K
          \<longrightarrow> p = p' \<and> a = a'"
    using assms(3) by blast
qed

lemma ledgerInv_output_step:
  assumes inv: "ledgerInv C K" and dp: "distinctPrefixes C"
    and la: "length a = 32" and li: "length ik = 34"
    and fresh: "UTXOStoreKeyPrefixOutput C # ik \<notin> K"
  shows "ledgerInv C (insert (UTXOStoreKeyPrefixUnspent C # a @ ik)
                        (insert (UTXOStoreKeyPrefixOutput C # ik) K))"
proof (rule ledgerInvI)
  let ?O = "UTXOStoreKeyPrefixOutput C" and ?U = "UTXOStoreKeyPrefixUnspent C"
  let ?S = "UTXOStoreKeyPrefixSpent C"
  let ?K' = "insert (?U # a @ ik) (insert (?O # ik) K)"
  from dp have d: "?O \<noteq> ?U" "?O \<noteq> ?S" "?U \<noteq> ?S"
    by (auto simp: distinctPrefixes_def)
  have none: "\<And>p a'. p = ?U \<or> p = ?S \<Longrightarrow> length a' = 32 \<Longrightarrow> p # a' @ ik \<notin> K"
    using ledgerInvD1[OF inv _ _ li] fresh by blast
  {
    fix p a' ik'
    assume p: "p = ?U \<or> p = ?S" and l: "length a' = 32" "length ik' = 34"
      and m: "p # a' @ ik' \<in> ?K'"
    from m p d have "p # a' @ ik' = ?U # a @ ik \<or> p # a' @ ik' \<in> K" by auto
    then show "?O # ik' \<in> ?K'"
    proof
      assume "p # a' @ ik' = ?U # a @ ik"
      then have "ik' = ik" using l la by simp
      then show ?thesis by simp
    next
      assume "p # a' @ ik' \<in> K"
      then have "?O # ik' \<in> K" using ledgerInvD1[OF inv p l] by simp
      then show ?thesis by simp
    qed
  next
    fix ik'
    assume l: "length ik' = 34" and m: "?O # ik' \<in> ?K'"
    from m d have "ik' = ik \<or> ?O # ik' \<in> K" by auto
    then show "\<exists>p a'. (p = ?U \<or> p = ?S) \<and> length a' = 32 \<and> p # a' @ ik' \<in> ?K'"
    proof
      assume "ik' = ik"
      then have "(?U = ?U \<or> ?U = ?S) \<and> length a = 32 \<and> ?U # a @ ik' \<in> ?K'"
        using la by simp
      then show ?thesis by blast
    next
      assume "?O # ik' \<in> K"
      from ledgerInvD2[OF inv l this] obtain p a' where
        "(p = ?U \<or> p = ?S) \<and> length a' = 32 \<and> p # a' @ ik' \<in> K" by blast
      then have "(p = ?U \<or> p = ?S) \<and> length a' = 32 \<and> p # a' @ ik' \<in> ?K'" by simp
      then show ?thesis by blast
    qed
  next
    fix p a1 p' a2 ik'
    assume p: "p = ?U \<or> p = ?S" and p': "p' = ?U \<or> p' = ?S"
      and l: "length a1 = 32" "length a2 = 32" "length ik' = 34"
      and m1: "p # a1 @ ik' \<in> ?K'" and m2: "p' # a2 @ ik' \<in> ?K'"
    have c1: "p # a1 @ ik' = ?U # a @ ik \<or> p # a1 @ ik' \<in> K" using m1 p d by auto
    have c2: "p' # a2 @ ik' = ?U # a @ ik \<or> p' # a2 @ ik' \<in> K" using m2 p' d by auto
    show "p = p' \<and> a1 = a2"
    proof (cases "ik' = ik")
      case True
      then have "p # a1 @ ik' \<notin> K" "p' # a2 @ ik' \<notin> K"
        using none[OF p l(1)] none[OF p' l(2)] by auto
      then have "p # a1 @ ik' = ?U # a @ ik" "p' # a2 @ ik' = ?U # a @ ik" using c1 c2 by auto
      then show ?thesis using l la by simp
    next
      case False
      then have "p # a1 @ ik' \<noteq> ?U # a @ ik" "p' # a2 @ ik' \<noteq> ?U # a @ ik"
        using l la by auto
      then have "p # a1 @ ik' \<in> K" "p' # a2 @ ik' \<in> K" using c1 c2 by auto
      then show ?thesis using ledgerInvD3[OF inv p p' l] by simp
    qed
  }
qed

lemma ledgerInv_spent_step:
  assumes inv: "ledgerInv C K" and dp: "distinctPrefixes C"
    and la: "length a = 32" and li: "length ik = 34"
    and known: "UTXOStoreKeyPrefixUnspent C # a @ ik \<in> K
                \<or> UTXOStoreKeyPrefixSpent C # a @ ik \<in> K"
  shows "ledgerInv C (insert (UTXOStoreKeyPrefixSpent C # a @ ik)
                        (K - {UTXOStoreKeyPrefixUnspent C # a @ ik}))"
proof (rule ledgerInvI)
  let ?O = "UTXOStoreKeyPrefixOutput C" and ?U = "UTXOStoreKeyPrefixUnspent C"
  let ?S = "UTXOStoreKeyPrefixSpent C"
  let ?K' = "insert (?S # a @ ik) (K - {?U # a @ ik})"
  from dp have d: "?O \<noteq> ?U" "?O \<noteq> ?S" "?U \<noteq> ?S"
    by (auto simp: distinctPrefixes_def)
  have us: "?U = ?U \<or> ?U = ?S" "?S = ?U \<or> ?S = ?S" by simp_all
  have out: "?O # ik \<in> K"
    using known ledgerInvD1[OF inv us(1) la li] ledgerInvD1[OF inv us(2) la li] by blast
  have keepO: "\<And>ik'. ?O # ik' \<in> K \<Longrightarrow> ?O # ik' \<in> ?K'"
    using d by simp
  have sub: "\<And>k. k \<in> ?K' \<Longrightarrow> k = ?S # a @ ik \<or> k \<in> K"
    by auto
  have only: "\<And>p a'. p = ?U \<or> p = ?S \<Longrightarrow> length a' = 32 \<Longrightarrow> p # a' @ ik \<in> ?K'
      \<Longrightarrow> p = ?S \<and> a' = a"
  proof -
    fix p a'
    assume p: "p = ?U \<or> p = ?S" and l: "length a' = 32" and m: "p # a' @ ik \<in> ?K'"
    from sub[OF m] show "p = ?S \<and> a' = a"
    proof
      assume "p # a' @ ik = ?S # a @ ik"
      then show ?thesis using l la by simp
    next
      assume k: "p # a' @ ik \<in> K"
      from known show ?thesis
      proof
        assume "?U # a @ ik \<in> K"
        from ledgerInvD3[OF inv p us(1) l la li k this] have "p # a' @ ik = ?U # a @ ik"
          by simp
        then show ?thesis using m d by simp
      next
        assume "?S # a @ ik \<in> K"
        from ledgerInvD3[OF inv p us(2) l la li k this] show ?thesis .
      qed
    qed
  qed
  {
    fix p a' ik'
    assume p: "p = ?U \<or> p = ?S" and l: "length a' = 32" "length ik' = 34"
      and m: "p # a' @ ik' \<in> ?K'"
    from sub[OF m] show "?O # ik' \<in> ?K'"
    proof
      assume "p # a' @ ik' = ?S # a @ ik"
      then have "ik' = ik" using l la by simp
      then show ?thesis using keepO[OF out] by simp
    next
      assume k: "p # a' @ ik' \<in> K"
      show ?thesis by (rule keepO[OF ledgerInvD1[OF inv p l k]])
    qed
  next
    fix ik'
    assume l: "length ik' = 34" and m: "?O # ik' \<in> ?K'"
    then have "?O # ik' \<in> K" using d by simp
    from ledgerInvD2[OF inv l this] obtain p a' where
      w: "p = ?U \<or> p = ?S" "length a' = 32" "p # a' @ ik' \<in> K" by blast
    show "\<exists>p a'. (p = ?U \<or> p = ?S) \<and> length a' = 32 \<and> p # a' @ ik' \<in> ?K'"
    proof (cases "p # a' @ ik' = ?U # a @ ik")
      case True
      then have "ik' = ik" using w(2) la by simp
      then have "(?S = ?U \<or> ?S = ?S) \<and> length a = 32 \<and> ?S # a @ ik' \<in> ?K'"
        using la by simp
      then show ?thesis by blast
    next
      case False
      then have "(p = ?U \<or> p = ?S) \<and> length a' = 32 \<and> p # a' @ ik' \<in> ?K'"
        using w by simp
      then show ?thesis by blast
    qed
  next
    fix p a1 p' a2 ik'
    assume p: "p = ?U \<or> p = ?S" and p': "p' = ?U \<or> p' = ?S"
      and l: "length a1 = 32" "length a2 = 32" "length ik' = 34"
      and m1: "p # a1 @ ik' \<in> ?K'" and m2: "p' # a2 @ ik' \<in> ?K'"
    show "p = p' \<and> a1 = a2"
    proof (cases "ik' = ik")
      case True
      from m1 m2 have "p # a1 @ ik \<in> ?K'" "p' # a2 @ ik \<in> ?K'"
        unfolding True by blast+
      then have "p = ?S \<and> a1 = a" "p' = ?S \<and> a2 = a"
        using only[OF p l(1)] only[OF p' l(2)] by blast+
      then show ?thesis by simp
    next
      case False
      have n1: "p # a1 @ ik' \<noteq> ?S # a @ ik"
      proof
        assume "p # a1 @ ik' = ?S # a @ ik"
        then have "a1 @ ik' = a @ ik" by simp
        then have "ik' = ik" using l(1) la by simp
        then show False using False by simp
      qed
      have n2: "p' # a2 @ ik' \<noteq> ?S # a @ ik"
      proof
        assume "p' # a2 @ ik' = ?S # a @ ik"
        then have "a2 @ ik' = a @ ik" by simp
        then have "ik' = ik" using l(2) la by simp
        then show False using False by simp
      qed
      have "p # a1 @ ik' \<in> K" using sub[OF m1] n1 by blast
      moreover have "p' # a2 @ ik' \<in> K" using sub[OF m2] n2 by blast
      ultimately show ?thesis by (rule ledgerInvD3[OF inv p p' l])
    qed
  }
qed

lemma ledgerInv_diff_step:
  assumes inv: "ledgerInv C K" and dp: "distinctPrefixes C"
  shows "ledgerInv C (insert (UTXOStoreKeyPrefixMilestoneDiffs C # w) K)"
proof (rule ledgerInvI)
  let ?O = "UTXOStoreKeyPrefixOutput C" and ?U = "UTXOStoreKeyPrefixUnspent C"
  let ?S = "UTXOStoreKeyPrefixSpent C" and ?D = "UTXOStoreKeyPrefixMilestoneDiffs C"
  let ?K' = "insert (?D # w) K"
  from dp have d: "?O \<noteq> ?D" "?U \<noteq> ?D" "?S \<noteq> ?D"
    by (auto simp: distinctPrefixes_def)
  {
    fix p a' ik'
    assume p: "p = ?U \<or> p = ?S" and l: "length a' = 32" "length ik' = 34"
      and m: "p # a' @ ik' \<in> ?K'"
    then have "p # a' @ ik' \<in> K" using d by auto
    then show "?O # ik' \<in> ?K'" using ledgerInvD1[OF inv p l] by simp
  next
    fix ik'
    assume l: "length ik' = 34" and m: "?O # ik' \<in> ?K'"
    then have "?O # ik' \<in> K" using d by simp
    from ledgerInvD2[OF inv l this] obtain p a' where
      "(p = ?U \<or> p = ?S) \<and> length a' = 32 \<and> p # a' @ ik' \<in> K" by blast
    then have "(p = ?U \<or> p = ?S) \<and> length a' = 32 \<and> p # a' @ ik' \<in> ?K'" by simp
    then show "\<exists>p a'. (p = ?U \<or> p = ?S) \<and> length a' = 32 \<and> p # a' @ ik' \<in> ?K'" by blast
  next
    fix p a1 p' a2 ik'
    assume p: "p = ?U \<or> p = ?S" and p': "p' = ?U \<or> p' = ?S"
      and l: "length a1 = 32" "length a2 = 32" "length ik' = 34"
      and m1: "p # a1 @ ik' \<in> ?K'" and m2: "p' # a2 @ ik' \<in> ?K'"
    have "p # a1 @ ik' \<in> K" "p' # a2 @ ik' \<in> K" using m1 m2 p p' d by auto
    then show "p = p' \<and> a1 = a2" using ledgerInvD3[OF inv p p' l] by simp
  }
qed

lemma dom_apply_mutation:
  "dom (map_of (apply_mutation m st)) = keysAfter m (dom (map_of st))"
  by (cases m) (auto simp: update_conv' delete_conv')

lemma dom_fold_apply_mutation:
  "dom (map_of (fold apply_mutation ops st)) = fold keysAfter ops (dom (map_of st))"
  by (induction ops arbitrary: st) (simp_all add: dom_apply_mutation)

lemma wellFormed_lengths:
  "wellFormed out \<Longrightarrow> length (Address out) = 32 \<and> length (Output_kvStorableKey out) = 34"
  by (simp add: wellFormed_def Output_kvStorableKey_def length_PutUint16)

lemma UTXOKey_split: "UTXOKey out = Address out @ Output_kvStorableKey out"
  by (simp add: UTXOKey_def Output_kvStorableKey_def)

lemma fold_keysAfter_outputs:
  "fold keysAfter (concat (map (outputMutations C) outs)) K =
     K \<union> (\<lambda>out. UTXOStoreKeyPrefixOutput C # Output_kvStorableKey out) ` set outs
       \<union> (\<lambda>out. UTXOStoreKeyPrefixUnspent C # UTXOKey out) ` set outs"
  by (induction outs arbitrary: K) (auto simp: outputMutations_def)

lemma ledgerInv_outputs:
  assumes "distinctPrefixes C"
  shows "ledgerInv C K
    \<Longrightarrow> \<forall>out \<in> set outs. wellFormed out \<and> UTXOStoreKeyPrefixOutput C # Output_kvStorableKey out \<notin> K
    \<Longrightarrow> distinct (map Output_kvStorableKey outs)
    \<Longrightarrow> ledgerInv C (fold keysAfter (concat (map (outputMutations C) outs)) K)"
proof (induction outs arbitrary: K)
  case Nil
  then show ?case by simp
next
  case (Cons out outs)
  let ?O = "UTXOStoreKeyPrefixOutput C" and ?U = "UTXOStoreKeyPrefixUnspent C"
  let ?K1 = "insert (?U # Address out @ Output_kvStorableKey out)
               (insert (?O # Output_kvStorableKey out) K)"
  from assms have d: "?O \<noteq> ?U" by (auto simp: distinctPrefixes_def)
  have wf: "length (Address out) = 32" "length (Output_kvStorableKey out) = 34"
    using Cons.prems(2) wellFormed_lengths[of out] by simp_all
  have fresh: "?O # Output_kvStorableKey out \<notin> K"
    using Cons.prems(2) by simp
  have inv1: "ledgerInv C ?K1"
    by (rule ledgerInv_output_step[OF Cons.prems(1) assms wf fresh])
  have rest: "\<forall>o' \<in> set outs. wellFormed o' \<and> ?O # Output_kvStorableKey o' \<notin> ?K1"
  proof
    fix o' assume m: "o' \<in> set outs"
    then have "Output_kvStorableKey o' \<in> Output_kvStorableKey ` set outs"
      by (rule imageI)
    then have "Output_kvStorableKey o' \<noteq> Output_kvStorableKey out"
      using Cons.prems(3) by auto
    moreover have "wellFormed o' \<and> ?O # Output_kvStorableKey o' \<notin> K"
      using Cons.prems(2) m by simp
    ultimately show "wellFormed o' \<and> ?O # Output_kvStorableKey o' \<notin> ?K1"
      using d by simp
  qed
  have dist: "distinct (map Output_kvStorableKey outs)"
    using Cons.prems(3) by simp
  have "fold keysAfter (concat (map (outputMutations C) (out # outs))) K
      = fold keysAfter (concat (map (outputMutations C) outs)) ?K1"
    by (simp add: outputMutations_def UTXOKey_split)
  then show ?case
    using Cons.IH[OF inv1 rest dist] by simp
qed

lemma ledgerInv_spents:
  assumes "distinctPrefixes C"
  shows "ledgerInv C K
    \<Longrightarrow> \<forall>spent \<in> set spents. wellFormed (SpentOutput spent)
          \<and> (UTXOStoreKeyPrefixUnspent C # Spent_kvStorableKey spent \<in> K
             \<or> UTXOStoreKeyPrefixSpent C # Spent_kvStorableKey spent \<in> K)
    \<Longrightarrow> ledgerInv C (fold keysAfter (concat (map (spentMutations C) spents)) K)"
proof (induction spents arbitrary: K)
  case Nil
  then show ?case by simp
next
  case (Cons spent spents)
  let ?S = "UTXOStoreKeyPrefixSpent C" and ?U = "UTXOStoreKeyPrefixUnspent C"
  let ?k = "Spent_kvStorableKey spent"
  let ?K1 = "insert (?S # ?k) (K - {?U # ?k})"
  from assms have d: "?U \<noteq> ?S" by (auto simp: distinctPrefixes_def)
  have k: "?k = Address (SpentOutput spent) @ Output_kvStorableKey (SpentOutput spent)"
    by (simp add: Spent_kvStorableKey_def UTXOKey_split)
  have wf: "length (Address (SpentOutput spent)) = 32"
    "length (Output_kvStorableKey (SpentOutput spent)) = 34"
    using Cons.prems(2) wellFormed_lengths[of "SpentOutput spent"] by simp_all
  have known: "?U # ?k \<in> K \<or> ?S # ?k \<in> K"
    using Cons.prems(2) by simp
  have inv1: "ledgerInv C ?K1"
    using ledgerInv_spent_step[OF Cons.prems(1) assms wf] known unfolding k by blast
  have rest: "\<forall>s' \<in> set spents. wellFormed (SpentOutput s')
          \<and> (?U # Spent_kvStorableKey s' \<in> ?K1 \<or> ?S # Spent_kvStorableKey s' \<in> ?K1)"
  proof
    fix s' assume m: "s' \<in> set spents"
    then have h: "wellFormed (SpentOutput s')"
      "?U # Spent_kvStorableKey s' \<in> K \<or> ?S # Spent_kvStorableKey s' \<in> K"
      using Cons.prems(2) by simp_all
    have "?U # Spent_kvStorableKey s' \<in> ?K1 \<or> ?S # Spent_kvStorableKey s' \<in> ?K1"
    proof (cases "Spent_kvStorableKey s' = ?k")
      case True
      then show ?thesis by simp
    next
      case False
      then show ?thesis using h(2) d by auto
    qed
    then show "wellFormed (SpentOutput s')
          \<and> (?U # Spent_kvStorableKey s' \<in> ?K1 \<or> ?S # Spent_kvStorableKey s' \<in> ?K1)"
      using h(1) by simp
  qed
  have "fold keysAfter (concat (map (spentMutations C) (spent # spents))) K
      = fold keysAfter (concat (map (spentMutations C) spents)) ?K1"
    by (simp add: spentMutations_def)
  then show ?case
    using Cons.IH[OF inv1 rest] by simp
qed

lemma ledgerInv_ApplyConfirmation:
  assumes dp: "distinctPrefixes C" and inv: "ledgerInv C (dom (map_of st))"
    and valid: "validCall C st outs spents"
  shows "ledgerInv C (dom (map_of (snd (snd (ApplyConfirmation C F i outs spents st)))))"
proof -
  let ?K = "dom (map_of st)"
  let ?A = "concat (map (outputMutations C) outs)"
  let ?B = "concat (map (spentMutations C) spents)"
  let ?d = "[UTXOStoreKeyPrefixMilestoneDiffs C] @ PutUint32 i"
  let ?K1 = "fold keysAfter ?A ?K"
  let ?K2 = "fold keysAfter ?B ?K1"
  have fresh: "\<forall>out \<in> set outs. wellFormed out
      \<and> UTXOStoreKeyPrefixOutput C # Output_kvStorableKey out \<notin> ?K"
    using valid by (auto simp: validCall_def freshOutputs_def list_all_iff)
  have dist: "distinct (map Output_kvStorableKey outs)"
    using valid by (simp add: validCall_def freshOutputs_def)
  have inv1: "ledgerInv C ?K1"
    by (rule ledgerInv_outputs[OF dp inv fresh dist])
  have K1: "?K1 = ?K \<union> (\<lambda>out. UTXOStoreKeyPrefixOutput C # Output_kvStorableKey out) ` set outs
       \<union> (\<lambda>out. UTXOStoreKeyPrefixUnspent C # UTXOKey out) ` set outs"
    by (rule fold_keysAfter_outputs)
  have known: "\<forall>spent \<in> set spents. wellFormed (SpentOutput spent)
          \<and> (UTXOStoreKeyPrefixUnspent C # Spent_kvStorableKey spent \<in> ?K1
             \<or> UTXOStoreKeyPrefixSpent C # Spent_kvStorableKey spent \<in> ?K1)"
  proof
    fix spent assume "spent \<in> set spents"
    then have s: "spendable C st outs spent"
      using valid by (simp add: validCall_def list_all_iff)
    then have "UTXOStoreKeyPrefixUnspent C # Spent_kvStorableKey spent \<in> ?K
        \<or> UTXOStoreKeyPrefixSpent C # Spent_kvStorableKey spent \<in> ?K
        \<or> Spent_kvStorableKey spent \<in> UTXOKey ` set outs"
      by (auto simp: spendable_def)
    then have "UTXOStoreKeyPrefixUnspent C # Spent_kvStorableKey spent \<in> ?K1
             \<or> UTXOStoreKeyPrefixSpent C # Spent_kvStorableKey spent \<in> ?K1"
      unfolding K1 by blast
    then show "wellFormed (SpentOutput spent)
          \<and> (UTXOStoreKeyPrefixUnspent C # Spent_kvStorableKey spent \<in> ?K1
             \<or> UTXOStoreKeyPrefixSpent C # Spent_kvStorableKey spent \<in> ?K1)"
      using s by (simp add: spendable_def)
  qed
  have inv2: "ledgerInv C ?K2"
    by (rule ledgerInv_spents[OF dp inv1 known])
  have inv3: "ledgerInv C (insert (UTXOStoreKeyPrefixMilestoneDiffs C # PutUint32 i) ?K2)"
    by (rule ledgerInv_diff_step[OF inv2 dp])
  have "fold keysAfter (confirmationMutations C i outs spents) ?K
      = insert (UTXOStoreKeyPrefixMilestoneDiffs C # PutUint32 i) ?K2"
    by (simp add: confirmationMutations_def)
  then have committed:
    "dom (map_of (fold apply_mutation (confirmationMutations C i outs spents) st))
      = insert (UTXOStoreKeyPrefixMilestoneDiffs C # PutUint32 i) ?K2"
    by (simp only: dom_fold_apply_mutation)
  have "snd (snd (ApplyConfirmation C F i outs spents st)) = st
      \<or> snd (snd (ApplyConfirmation C F i outs spents st))
          = fold apply_mutation (confirmationMutations C i outs spents) st"
    by (simp add: ApplyConfirmation_eq Commit_def split: option.splits)
  then show ?thesis
    using inv inv3 committed by auto
qed

lemma ledgerInv_applyConfirmations:
  assumes "distinctPrefixes C"
  shows "ledgerInv C (dom (map_of st)) \<Longrightarrow> validConfirmations C F calls st
    \<Longrightarrow> ledgerInv C (dom (map_of (applyConfirmations C F calls st)))"
proof (induction calls arbitrary: st)
  case Nil
  then show ?case by simp
next
  case (Cons call calls)
  obtain i outs spents where c: "call = (i, outs, spents)"
    by (cases call) auto
  have "ledgerInv C (dom (map_of (snd (snd (ApplyConfirmation C F i outs spents st)))))"
    using Cons.prems c by (intro ledgerInv_ApplyConfirmation[OF assms]) simp_all
  then show ?case
    using Cons.prems(2) c by (simp add: Cons.IH)
qed

lemma indexedUnder_iff:
  assumes "length tx = 32"
  shows "indexedUnder p st tx idx
     \<longleftrightarrow> (\<exists>a. length a = 32 \<and> p # a @ tx @ PutUint16 idx \<in> dom (map_of st))"
proof
  assume "indexedUnder p st tx idx"
  then obtain k where k: "k \<in> fst ` set st" "length k = 67" "take 1 k = [p]"
    "drop 33 k = tx @ PutUint16 idx"
    by (auto simp: indexedUnder_def list_ex_iff)
  have e: "take 1 k @ (take 32 (drop 1 k) @ drop 32 (drop 1 k)) = k"
    by (simp only: append_take_drop_id)
  have "drop 32 (drop 1 k) = drop 33 k"
    by simp
  then have "[p] @ (take 32 (drop 1 k) @ (tx @ PutUint16 idx)) = k"
    using e by (simp only: k(3) k(4))
  then have "k = p # take 32 (drop 1 k) @ tx @ PutUint16 idx"
    by simp
  moreover have "length (take 32 (drop 1 k)) = 32"
    using k(2) by simp
  ultimately have "length (take 32 (drop 1 k)) = 32
      \<and> p # take 32 (drop 1 k) @ tx @ PutUint16 idx \<in> dom (map_of st)"
    using k(1) by (simp add: dom_map_of_conv_image_fst)
  then show "\<exists>a. length a = 32 \<and> p # a @ tx @ PutUint16 idx \<in> dom (map_of st)"
    by blast
next
  assume "\<exists>a. length a = 32 \<and> p # a @ tx @ PutUint16 idx \<in> dom (map_of st)"
  then obtain a where a: "length a = 32" "p # a @ tx @ PutUint16 idx \<in> fst ` set st"
    by (auto simp: dom_map_of_conv_image_fst)
  have "length (p # a @ tx @ PutUint16 idx) = 67 \<and> take 1 (p # a @ tx @ PutUint16 idx) = [p]
      \<and> drop 33 (p # a @ tx @ PutUint16 idx) = tx @ PutUint16 idx"
    using a(1) assms by (simp add: length_PutUint16)
  then show "indexedUnder p st tx idx"
    unfolding indexedUnder_def list_ex_iff using a(2) by (metis set_map)
qed

text \<open>
  C2, as the code has it: from the empty store, after a sequence of calls that are all
  valid (new outputs with new, different identities; spent outputs that the store has as
  unspent or spent under their address, or that the call creates), every identity is in at
  most one of the Unspent and the Spent index, it is in one of them exactly when its
  Output record is in the store, and an identity that is not in the Output index is in
  neither.
\<close>

theorem ledger_indices_consistent:
  assumes "distinctPrefixes C" and "validConfirmations C F calls []"
    and "length transactionID = 32"
  shows "\<not> (inUnspentIndex C (applyConfirmations C F calls []) transactionID outputIndex
            \<and> inSpentIndex C (applyConfirmations C F calls []) transactionID outputIndex)
    \<and> ((inUnspentIndex C (applyConfirmations C F calls []) transactionID outputIndex
            \<or> inSpentIndex C (applyConfirmations C F calls []) transactionID outputIndex)
        = inOutputIndex C (applyConfirmations C F calls []) transactionID outputIndex)
    \<and> (\<not> inOutputIndex C (applyConfirmations C F calls []) transactionID outputIndex
        \<longrightarrow> \<not> inUnspentIndex C (applyConfirmations C F calls []) transactionID outputIndex
          \<and> \<not> inSpentIndex C (applyConfirmations C F calls []) transactionID outputIndex)"
proof -
  let ?st = "applyConfirmations C F calls []"
  let ?ik = "transactionID @ PutUint16 outputIndex"
  let ?U = "UTXOStoreKeyPrefixUnspent C" and ?S = "UTXOStoreKeyPrefixSpent C"
  have inv: "ledgerInv C (dom (map_of ?st))"
    using ledgerInv_applyConfirmations[OF assms(1) _ assms(2)] by (simp add: ledgerInv_empty)
  have li: "length ?ik = 34"
    using assms(3) by (simp add: length_PutUint16)
  have d: "?U \<noteq> ?S" using assms(1) by (auto simp: distinctPrefixes_def)
  have us: "?U = ?U \<or> ?U = ?S" "?S = ?U \<or> ?S = ?S" by simp_all
  have U: "inUnspentIndex C ?st transactionID outputIndex
      \<longleftrightarrow> (\<exists>a. length a = 32 \<and> ?U # a @ ?ik \<in> dom (map_of ?st))"
    unfolding inUnspentIndex_def by (rule indexedUnder_iff[OF assms(3)])
  have S: "inSpentIndex C ?st transactionID outputIndex
      \<longleftrightarrow> (\<exists>a. length a = 32 \<and> ?S # a @ ?ik \<in> dom (map_of ?st))"
    unfolding inSpentIndex_def by (rule indexedUnder_iff[OF assms(3)])
  have O: "inOutputIndex C ?st transactionID outputIndex
      \<longleftrightarrow> UTXOStoreKeyPrefixOutput C # ?ik \<in> dom (map_of ?st)"
    by (auto simp: inOutputIndex_def)
  have notboth: "\<not> (inUnspentIndex C ?st transactionID outputIndex
            \<and> inSpentIndex C ?st transactionID outputIndex)"
  proof
    assume "inUnspentIndex C ?st transactionID outputIndex
            \<and> inSpentIndex C ?st transactionID outputIndex"
    then obtain a a' where "length a = 32" "?U # a @ ?ik \<in> dom (map_of ?st)"
      "length a' = 32" "?S # a' @ ?ik \<in> dom (map_of ?st)"
      using U S by blast
    from ledgerInvD3[OF inv us this(1,3) li this(2,4)] show False using d by simp
  qed
  have fwd: "inUnspentIndex C ?st transactionID outputIndex
            \<or> inSpentIndex C ?st transactionID outputIndex
      \<Longrightarrow> inOutputIndex C ?st transactionID outputIndex"
    unfolding U S O using ledgerInvD1[OF inv us(1) _ li] ledgerInvD1[OF inv us(2) _ li] by blast
  have bwd: "inOutputIndex C ?st transactionID outputIndex
      \<Longrightarrow> inUnspentIndex C ?st transactionID outputIndex
            \<or> inSpentIndex C ?st transactionID outputIndex"
    unfolding U S O using ledgerInvD2[OF inv li] by blast
  show ?thesis using notboth fwd bwd by blast
qed

theorem ledger_indices_consistent_witness:
  "distinctPrefixes exampleParams \<and> validConfirmations exampleParams noFaults exampleCalls []
   \<and> length (TransactionID outputA) = 32
   \<and> \<not> (inUnspentIndex exampleParams (applyConfirmations exampleParams noFaults exampleCalls [])
            (TransactionID outputA) (OutputIndex outputA)
        \<and> inSpentIndex exampleParams (applyConfirmations exampleParams noFaults exampleCalls [])
            (TransactionID outputA) (OutputIndex outputA))
   \<and> ((inUnspentIndex exampleParams (applyConfirmations exampleParams noFaults exampleCalls [])
            (TransactionID outputA) (OutputIndex outputA)
        \<or> inSpentIndex exampleParams (applyConfirmations exampleParams noFaults exampleCalls [])
            (TransactionID outputA) (OutputIndex outputA))
       = inOutputIndex exampleParams (applyConfirmations exampleParams noFaults exampleCalls [])
            (TransactionID outputA) (OutputIndex outputA))"
proof -
  have dp: "distinctPrefixes exampleParams"
    by (simp add: distinctPrefixes_def exampleParams_def)
  have v: "validConfirmations exampleParams noFaults exampleCalls []"
    by code_simp
  have l: "length (TransactionID outputA) = 32"
    by (simp add: outputA_def)
  show ?thesis
    using dp v l ledger_indices_consistent [OF dp v l, of "OutputIndex outputA"]
    by blast
qed

text \<open>
  C2 as stated fails: after the one call that spends an output which was never created,
  the identity is in the Spent index and not in the Output index.
\<close>

theorem spent_without_output:
  "inSpentIndex exampleParams (applyConfirmations exampleParams noFaults [(6, [], [spentA])] [])
      (TransactionID outputA) (OutputIndex outputA)
   \<and> \<not> inOutputIndex exampleParams
        (applyConfirmations exampleParams noFaults [(6, [], [spentA])] [])
        (TransactionID outputA) (OutputIndex outputA)"
  by code_simp

end
